theory Spec2Isabelle
  imports Main "HOL-Library.Word"
begin

unbundle bit_operations_syntax

section \<open>JavaScript strings\<close>

text \<open>
  Strings are byte strings (the UTF-8 encoding of the JavaScript string).
  \<open>startsWith\<close> and \<open>indexOf\<close> follow \<^verbatim>\<open>String.prototype.indexOf\<close>: the index
  of the first occurrence of the pattern, or \<open>-1\<close>; the handlers of
  \<^verbatim>\<open>sendTransaction\<close> test \<^verbatim>\<open>error.indexOf(pattern) > -1\<close>.
\<close>

fun startsWith :: "string \<Rightarrow> string \<Rightarrow> bool" where
  "startsWith s [] = True"
| "startsWith [] (p # ps) = False"
| "startsWith (c # cs) (p # ps) = (c = p \<and> startsWith cs ps)"

fun indexOf_from :: "nat \<Rightarrow> string \<Rightarrow> string \<Rightarrow> int" where
  "indexOf_from k [] p = (if p = [] then int k else - 1)"
| "indexOf_from k (c # cs) p =
     (if startsWith (c # cs) p then int k else indexOf_from (Suc k) cs p)"

definition indexOf :: "string \<Rightarrow> string \<Rightarrow> int" where
  "indexOf s p = indexOf_from 0 s p"


section \<open>Configuration: \<^verbatim>\<open>parseEnv\<close> (main.js, lines 35 to 54, and line 237)\<close>











section \<open>The digest: \<^verbatim>\<open>shajs('sha256').update(value).digest('hex')\<close>\<close>

text \<open>
  The handlers compute the digest with the library sha.js, which implements SHA-256 of
  FIPS 180-4 and prints the eight 32-bit words of the final hash value in lower-case
  hexadecimal. The functions below are that algorithm: padding to a multiple of 64 bytes
  with the bit length in the last eight bytes, the message schedule of 64 words, the 64
  rounds of the compression function, and the hex encoding. Bytes are natural numbers
  below 256. The round constants and the initial hash value are written in decimal.
\<close>

type_synonym word32 = "32 word"

definition hex_digit :: "nat \<Rightarrow> char" where
  "hex_digit d = (''0123456789abcdef'' ! d)"

definition K256 :: "word32 list" where
  "K256 = [
    1116352408, 1899447441, 3049323471, 3921009573, 961987163, 1508970993, 2453635748, 2870763221,
    3624381080, 310598401, 607225278, 1426881987, 1925078388, 2162078206, 2614888103, 3248222580,
    3835390401, 4022224774, 264347078, 604807628, 770255983, 1249150122, 1555081692, 1996064986,
    2554220882, 2821834349, 2952996808, 3210313671, 3336571891, 3584528711, 113926993, 338241895,
    666307205, 773529912, 1294757372, 1396182291, 1695183700, 1986661051, 2177026350, 2456956037,
    2730485921, 2820302411, 3259730800, 3345764771, 3516065817, 3600352804, 4094571909, 275423344,
    430227734, 506948616, 659060556, 883997877, 958139571, 1322822218, 1537002063, 1747873779,
    1955562222, 2024104815, 2227730452, 2361852424, 2428436474, 2756734187, 3204031479, 3329325298]"

type_synonym sha_state =
  "word32 \<times> word32 \<times> word32 \<times> word32 \<times> word32 \<times> word32 \<times> word32 \<times> word32"

definition H256_init :: sha_state where
  "H256_init = (1779033703, 3144134277, 1013904242, 2773480762,
                1359893119, 2600822924, 528734635, 1541459225)"

definition rotr :: "nat \<Rightarrow> word32 \<Rightarrow> word32" where
  "rotr n x = (drop_bit n x) OR (push_bit (32 - n) x)"

definition Ch :: "word32 \<Rightarrow> word32 \<Rightarrow> word32 \<Rightarrow> word32" where
  "Ch x y z = (x AND y) XOR (NOT x AND z)"

definition Maj :: "word32 \<Rightarrow> word32 \<Rightarrow> word32 \<Rightarrow> word32" where
  "Maj x y z = (x AND y) XOR (x AND z) XOR (y AND z)"

definition Sigma0 :: "word32 \<Rightarrow> word32" where
  "Sigma0 x = rotr 2 x XOR rotr 13 x XOR rotr 22 x"

definition Sigma1 :: "word32 \<Rightarrow> word32" where
  "Sigma1 x = rotr 6 x XOR rotr 11 x XOR rotr 25 x"

definition sigma0 :: "word32 \<Rightarrow> word32" where
  "sigma0 x = rotr 7 x XOR rotr 18 x XOR drop_bit 3 x"

definition sigma1 :: "word32 \<Rightarrow> word32" where
  "sigma1 x = rotr 17 x XOR rotr 19 x XOR drop_bit 10 x"

definition be64 :: "nat \<Rightarrow> nat list" where
  "be64 n = map (\<lambda>i. (n div 2 ^ (8 * i)) mod 256) [7, 6, 5, 4, 3, 2, 1, 0]"

definition pad :: "nat list \<Rightarrow> nat list" where
  "pad bs = bs @ [128] @ replicate ((119 - length bs mod 64) mod 64) 0 @ be64 (8 * length bs)"

fun words_of :: "nat list \<Rightarrow> word32 list" where
  "words_of (b0 # b1 # b2 # b3 # bs) =
     of_nat (((b0 * 256 + b1) * 256 + b2) * 256 + b3) # words_of bs"
| "words_of bs = []"

fun extend :: "nat \<Rightarrow> word32 list \<Rightarrow> word32 list" where
  "extend 0 w = w"
| "extend (Suc n) w =
     extend n (w @ [sigma1 (w ! (length w - 2)) + w ! (length w - 7)
                    + sigma0 (w ! (length w - 15)) + w ! (length w - 16)])"

definition sha_round :: "sha_state \<Rightarrow> word32 \<times> word32 \<Rightarrow> sha_state" where
  "sha_round s kw =
     (case s of (a, b, c, d, e, f, g, h) \<Rightarrow>
        (let T1 = h + Sigma1 e + Ch e f g + fst kw + snd kw;
             T2 = Sigma0 a + Maj a b c
         in (T1 + T2, a, b, c, d + T1, e, f, g)))"

definition add_state :: "sha_state \<Rightarrow> sha_state \<Rightarrow> sha_state" where
  "add_state s t =
     (case s of (h0, h1, h2, h3, h4, h5, h6, h7) \<Rightarrow>
      case t of (a, b, c, d, e, f, g, h) \<Rightarrow>
        (h0 + a, h1 + b, h2 + c, h3 + d, h4 + e, h5 + f, h6 + g, h7 + h))"

definition compress :: "sha_state \<Rightarrow> nat list \<Rightarrow> sha_state" where
  "compress H block = add_state H (foldl sha_round H (zip K256 (extend 48 (words_of block))))"

fun sha_blocks :: "nat \<Rightarrow> sha_state \<Rightarrow> nat list \<Rightarrow> sha_state" where
  "sha_blocks 0 H bs = H"
| "sha_blocks (Suc n) H bs = sha_blocks n (compress H (take 64 bs)) (drop 64 bs)"

definition sha256 :: "string \<Rightarrow> sha_state" where
  "sha256 s = (let p = pad (map of_char s) in sha_blocks (length p div 64) H256_init p)"

definition hex32 :: "word32 \<Rightarrow> string" where
  "hex32 w = map (\<lambda>i. hex_digit (unat (drop_bit (4 * i) w AND 15))) [7, 6, 5, 4, 3, 2, 1, 0]"

definition hex_state :: "sha_state \<Rightarrow> string" where
  "hex_state s =
     (case s of (h0, h1, h2, h3, h4, h5, h6, h7) \<Rightarrow>
        hex32 h0 @ hex32 h1 @ hex32 h2 @ hex32 h3 @ hex32 h4 @ hex32 h5 @ hex32 h6 @ hex32 h7)"

definition sha256_hex :: "string \<Rightarrow> string" where
  "sha256_hex s = hex_state (sha256 s)"

text \<open>
  The value a handler reads from the request (\<^verbatim>\<open>req.body.value\<close>,
  \<^verbatim>\<open>req.query.value\<close>) is any JavaScript value: \<open>JUndefined\<close> when the request
  has none, a string, or something else (a number, an array, an object; the argument of
  \<open>JOther\<close> only tells such values apart). On a string the library hashes its bytes.
  On \<^verbatim>\<open>undefined\<close> it reads \<^verbatim>\<open>data.length\<close> and throws a TypeError. What it
  does on another value differs between its versions, so that is left to the parameter
  \<open>digest_other\<close>.
\<close>

datatype js_exception = TypeError

datatype js_value = JUndefined | JString string | JOther nat

definition digest :: "(nat \<Rightarrow> js_exception + string) \<Rightarrow> js_value \<Rightarrow> js_exception + string" where
  "digest digest_other v =
     (case v of
        JString s \<Rightarrow> Inr (sha256_hex s)
      | JUndefined \<Rightarrow> Inl TypeError
      | JOther k \<Rightarrow> digest_other k)"

section \<open>The Submission Engine: \<^verbatim>\<open>sendTransaction\<close> and \<^verbatim>\<open>pollTransaction\<close>\<close>

subsection \<open>Values that cross the RPC boundary\<close>

text \<open>
  A receipt, with the fields the program reads. A raw log entry is opaque to the program:
  only the decoder of the library abi-decoder looks inside.
\<close>

type_synonym raw_log = string

record receipt =
  transactionHash :: string
  logs :: "raw_log list"
  receipt_contractAddress :: "string option"

text \<open>
  The three events of the object that \<^verbatim>\<open>web3.eth.sendSignedTransaction\<close> returns.
  The error event carries the text of the error, the value of \<^verbatim>\<open>error.toString()\<close>
  of line 143: the handler only ever uses that text.
\<close>

datatype event = TransactionHash string | Receipt receipt | Error string

text \<open>The reply of the RPC to \<^verbatim>\<open>getTransactionReceipt\<close>: a receipt, null, or a failed call.\<close>

datatype rpc_reply = Reply "receipt option" | Failure string

text \<open>
  What \<^verbatim>\<open>abiDecoder.decodeLogs\<close> returns for one log entry: the name of the event and
  its parameters in the order of the ABI, each with its name, type and decoded value.
  An entry that matches no event of the ABI decodes to \<^verbatim>\<open>undefined\<close> (\<open>None\<close>).
\<close>

datatype abi_value = AbiString string | AbiBool bool

record decoded_param =
  param_name :: string
  param_type :: string
  param_value :: abi_value

record decoded_log =
  log_name :: string
  events :: "decoded_param list"

subsection \<open>Promises\<close>

text \<open>
  The promise that \<^verbatim>\<open>sendTransaction\<close> returns. Only the first call of
  \<^verbatim>\<open>resolve\<close> or \<^verbatim>\<open>reject\<close> has an effect. \<^verbatim>\<open>resolve\<close> called with the
  promise of another call of \<^verbatim>\<open>sendTransaction\<close> makes this promise follow that one
  (\<open>Follows j\<close>: the call with index \<open>j\<close>), and later calls have no effect either.
\<close>

datatype resolution = HashValue string | ReceiptValue receipt

datatype settlement = Resolved resolution | Rejected string

datatype promise = Pending | Settled settlement | Follows nat

subsection \<open>The signed payload\<close>

text \<open>\<^verbatim>\<open>web3.utils.toHex\<close> on a non-negative integer.\<close>

function hex_of_nat :: "nat \<Rightarrow> string" where
  "hex_of_nat n = (if n < 16 then [hex_digit n] else hex_of_nat (n div 16) @ [hex_digit (n mod 16)])"
  by pat_completeness auto
termination
  by (relation "measure (\<lambda>n. n)") auto

declare hex_of_nat.simps [simp del]

definition toHex :: "nat \<Rightarrow> string" where
  "toHex n = ''0x'' @ hex_of_nat n"

record tx =
  tx_data :: string
  tx_gasLimit :: string
  tx_gasPrice :: string
  tx_nonce :: string
  tx_to :: "string option"

text \<open>
  What the program uses of its surroundings: the contract object of line 68 (the address
  it was constructed with, null when \<^verbatim>\<open>CONTRACT_ADDRESS\<close> is unset; the names of its
  methods, from the ABI file; the library's encoding of a method call and of a
  deployment), the reply of the RPC to \<^verbatim>\<open>getTransactionCount(address)\<close>, should
  the engine ask (a count, or the error of a failed call), the log decoder registered
  with the ABI in line 71, and what the digest library does on a value that is neither
  a string nor undefined.
\<close>

record web3_env =
  options_address :: "string option"
  methods :: "string list"
  encodeABI_method :: "string \<Rightarrow> string list \<Rightarrow> string"
  encodeABI_deploy :: "string option \<Rightarrow> string"
  getTransactionCount :: "string + nat"
  decodeLogs :: "raw_log list \<Rightarrow> decoded_log option list"
  digest_other :: "nat \<Rightarrow> js_exception + string"

text \<open>
  Line 118: \<^verbatim>\<open>lastNonce + 1 || await web3.eth.getTransactionCount(address)\<close>.
  With \<^verbatim>\<open>lastNonce\<close> undefined the sum is NaN, which is falsy, and the count is
  asked for; with a number it is asked for only when the sum is zero.
  Nonces are natural numbers (JavaScript numbers are exact on integers below \<open>2^53\<close>).
\<close>

definition compute_nonce :: "web3_env \<Rightarrow> nat option \<Rightarrow> string + nat" where
  "compute_nonce env lastNonce =
     (case lastNonce of
        None \<Rightarrow> getTransactionCount env
      | Some n \<Rightarrow> (if n + 1 \<noteq> 0 then Inr (n + 1) else getTransactionCount env))"

text \<open>
  Lines 119 to 129. \<^verbatim>\<open>params[0]\<close> is undefined on an empty array.
  \<^verbatim>\<open>contract.options.address || undefined\<close> is absent for null and for the empty string.
\<close>

definition build_tx :: "web3_env \<Rightarrow> string \<Rightarrow> string list \<Rightarrow> nat \<Rightarrow> tx" where
  "build_tx env methodName params nonce =
     (let deploy = (methodName \<notin> set (methods env));
          data = (if deploy
                  then encodeABI_deploy env (case params of [] \<Rightarrow> None | p # ps \<Rightarrow> Some p)
                  else encodeABI_method env methodName params)
      in \<lparr> tx_data = data,
           tx_gasLimit = toHex 400000,
           tx_gasPrice = toHex 20000000000,
           tx_nonce = toHex nonce,
           tx_to = (case options_address env of
                      None \<Rightarrow> None
                    | Some a \<Rightarrow> (if a = [] then None else Some a)) \<rparr>)"

subsection \<open>One call of \<^verbatim>\<open>sendTransaction\<close>\<close>

text \<open>
  The state of one call after line 133: its arguments, the nonce it computed, the
  transaction it signed and handed to \<^verbatim>\<open>sendSignedTransaction\<close> (signing and
  serialising change no field), the variable \<^verbatim>\<open>txHash\<close> and the promise it returned.
  A call whose count query fails submits nothing and returns a rejected promise: the
  \<open>Inl\<close> case.
\<close>

record attempt =
  methodName :: string
  params :: "string list"
  immediate :: bool
  nonce :: nat
  sent :: tx
  txHash :: "string option"
  promise :: promise

definition sendTransaction ::
    "web3_env \<Rightarrow> string \<Rightarrow> string list \<Rightarrow> nat option \<Rightarrow> bool \<Rightarrow> string + attempt" where
  "sendTransaction env m ps lastNonce imm =
     (case compute_nonce env lastNonce of
        Inl err \<Rightarrow> Inl err
      | Inr n \<Rightarrow> Inr \<lparr> methodName = m, params = ps, immediate = imm, nonce = n,
                       sent = build_tx env m ps n, txHash = None, promise = Pending \<rparr>)"

definition resolve :: "resolution \<Rightarrow> attempt \<Rightarrow> attempt" where
  "resolve v a = (if promise a = Pending then a\<lparr>promise := Settled (Resolved v)\<rparr> else a)"

definition reject :: "string \<Rightarrow> attempt \<Rightarrow> attempt" where
  "reject e a = (if promise a = Pending then a\<lparr>promise := Settled (Rejected e)\<rparr> else a)"

definition resolve_with_call :: "nat \<Rightarrow> attempt \<Rightarrow> attempt" where
  "resolve_with_call j a = (if promise a = Pending then a\<lparr>promise := Follows j\<rparr> else a)"

subsection \<open>\<^verbatim>\<open>pollTransaction\<close> (lines 93 to 101)\<close>

text \<open>
  A poll is one call of \<^verbatim>\<open>pollTransaction(hash)\<close>, made by the timeout branch of the
  call \<open>waiter\<close>, which awaits it. \<^verbatim>\<open>tick\<close> runs at once and asks the RPC for the
  receipt (\<open>Querying\<close>); on null it sets a timer of 1000 ms (\<open>Sleeping 1000\<close>), and the
  timer runs \<^verbatim>\<open>tick\<close> again; on a receipt it resolves (\<open>Finished\<close>); when the RPC
  call fails, \<^verbatim>\<open>tick\<close> throws and nothing runs again (\<open>Dead\<close>). \<open>queries\<close> counts
  the calls of \<^verbatim>\<open>getTransactionReceipt\<close>.
\<close>

datatype poll_status = Querying | Sleeping nat | Finished receipt | Dead

record poll =
  poll_hash :: "string option"
  waiter :: nat
  status :: poll_status
  queries :: nat

definition pollTransaction :: "string option \<Rightarrow> nat \<Rightarrow> poll" where
  "pollTransaction hash w = \<lparr> poll_hash = hash, waiter = w, status = Querying, queries = 1 \<rparr>"

definition tick_reply :: "rpc_reply \<Rightarrow> poll \<Rightarrow> poll" where
  "tick_reply rep p =
     (case rep of
        Failure e \<Rightarrow> p\<lparr>status := Dead\<rparr>
      | Reply None \<Rightarrow> p\<lparr>status := Sleeping 1000\<rparr>
      | Reply (Some r) \<Rightarrow> p\<lparr>status := Finished r\<rparr>)"

definition timer_fired :: "poll \<Rightarrow> poll" where
  "timer_fired p =
     (case status p of
        Sleeping d \<Rightarrow> p\<lparr>status := Querying, queries := queries p + 1\<rparr>
      | _ \<Rightarrow> p)"

subsection \<open>The event handlers (lines 135 to 159)\<close>

text \<open>
  A configuration holds every call of \<^verbatim>\<open>sendTransaction\<close> made for one logical
  request, in the order they were made (call 0 is the one the caller made, the others
  are retries), and every poll. The surroundings act on it: the transport emits an
  event on the object of call \<open>i\<close>, the RPC answers the receipt query of a poll, or the
  timer of a poll fires. An action that addresses no call, no poll, or a poll that is
  not waiting for it, changes nothing. The calls of \<^verbatim>\<open>log\<close> only print to the
  console (unless \<^verbatim>\<open>silent\<close> is set) and are left out.
\<close>

record config =
  attempts :: "attempt list"
  polls :: "poll list"

datatype action = Emit nat event | PollReply nat rpc_reply | TimerFired nat

definition on_transactionHash :: "string \<Rightarrow> attempt \<Rightarrow> attempt" where
  "on_transactionHash hash a =
     (let a' = a\<lparr>txHash := Some hash\<rparr>
      in if immediate a' then resolve (HashValue hash) a' else a')"

definition on_receipt :: "receipt \<Rightarrow> attempt \<Rightarrow> attempt" where
  "on_receipt r a = resolve (ReceiptValue r) a"

definition on_error :: "web3_env \<Rightarrow> nat \<Rightarrow> string \<Rightarrow> config \<Rightarrow> config" where
  "on_error env i error c =
     (let a = attempts c ! i in
      if indexOf error ''within 50 blocks'' > - 1
      then c\<lparr>polls := polls c @ [pollTransaction (txHash a) i]\<rparr>
      else if indexOf error ''known transaction'' > - 1 \<or> indexOf error ''underpriced'' > - 1
      then (case sendTransaction env (methodName a) (params a) (Some (nonce a)) (immediate a) of
              Inl err \<Rightarrow> c\<lparr>attempts := (attempts c)[i := reject err a]\<rparr>
            | Inr a' \<Rightarrow>
                c\<lparr>attempts := (attempts c)[i := resolve_with_call (length (attempts c)) a] @ [a']\<rparr>)
      else c\<lparr>attempts := (attempts c)[i := reject error a]\<rparr>)"

definition on_poll_reply :: "nat \<Rightarrow> rpc_reply \<Rightarrow> config \<Rightarrow> config" where
  "on_poll_reply p rep c =
     (let q = tick_reply rep (polls c ! p);
          c' = c\<lparr>polls := (polls c)[p := q]\<rparr>
      in case status q of
           Finished r \<Rightarrow>
             c'\<lparr>attempts := (attempts c)[waiter q := resolve (ReceiptValue r) (attempts c ! waiter q)]\<rparr>
         | _ \<Rightarrow> c')"

fun step :: "web3_env \<Rightarrow> config \<Rightarrow> action \<Rightarrow> config" where
  "step env c (Emit i ev) =
     (if i < length (attempts c)
      then (case ev of
              TransactionHash hash \<Rightarrow>
                c\<lparr>attempts := (attempts c)[i := on_transactionHash hash (attempts c ! i)]\<rparr>
            | Receipt r \<Rightarrow> c\<lparr>attempts := (attempts c)[i := on_receipt r (attempts c ! i)]\<rparr>
            | Error error \<Rightarrow> on_error env i error c)
      else c)"
| "step env c (PollReply p rep) =
     (if p < length (polls c) \<and> status (polls c ! p) = Querying
      then on_poll_reply p rep c
      else c)"
| "step env c (TimerFired p) =
     (if p < length (polls c) then c\<lparr>polls := (polls c)[p := timer_fired (polls c ! p)]\<rparr> else c)"

definition run :: "web3_env \<Rightarrow> config \<Rightarrow> action list \<Rightarrow> config" where
  "run env c sched = foldl (step env) c sched"

text \<open>
  What the promise of call \<open>i\<close> has settled to, through the promises it follows:
  \<open>None\<close> while it has not settled. A promise only ever follows a later call, so as many
  steps as there are calls are enough.
\<close>

fun follow :: "nat \<Rightarrow> attempt list \<Rightarrow> nat \<Rightarrow> settlement option" where
  "follow 0 as i = None"
| "follow (Suc k) as i =
     (if i < length as
      then (case promise (as ! i) of
              Pending \<Rightarrow> None
            | Settled s \<Rightarrow> Some s
            | Follows j \<Rightarrow> follow k as j)
      else None)"

definition outcome :: "config \<Rightarrow> nat \<Rightarrow> settlement option" where
  "outcome c i = follow (length (attempts c)) (attempts c) i"

text \<open>The configuration right after the caller's call, and the result the caller awaits.\<close>

definition start :: "attempt \<Rightarrow> config" where
  "start a = \<lparr> attempts = [a], polls = [] \<rparr>"

definition submit ::
    "web3_env \<Rightarrow> string \<Rightarrow> string list \<Rightarrow> bool \<Rightarrow> action list \<Rightarrow> settlement option" where
  "submit env m ps imm sched =
     (case sendTransaction env m ps None imm of
        Inl err \<Rightarrow> Some (Rejected err)
      | Inr a \<Rightarrow> outcome (run env (start a) sched) 0)"

section \<open>The contract (ProofOfExistence.sol)\<close>

text \<open>
  The ledger side: a mapping from digests to booleans, and the two functions, each
  returning the new mapping and the events it emits.
\<close>

type_synonym proofs = "string \<Rightarrow> bool"

datatype contract_event = OnNotarize string | OnVerify string bool

definition contract_notarize :: "proofs \<Rightarrow> string \<Rightarrow> proofs \<times> contract_event list" where
  "contract_notarize proofs dataHash = (proofs(dataHash := True), [OnNotarize dataHash])"

definition contract_verify :: "proofs \<Rightarrow> string \<Rightarrow> proofs \<times> contract_event list" where
  "contract_verify proofs dataHash =
     (let notarized = proofs dataHash in (proofs, [OnVerify dataHash notarized]))"

text \<open>An emitted event as the decoder presents it, by the declarations of lines 6 and 7.\<close>

fun decoded_event :: "contract_event \<Rightarrow> decoded_log" where
  "decoded_event (OnNotarize dataHash) =
     \<lparr> log_name = ''OnNotarize'',
       events = [\<lparr> param_name = ''dataHash'', param_type = ''string'',
                   param_value = AbiString dataHash \<rparr>] \<rparr>"
| "decoded_event (OnVerify dataHash notarized) =
     \<lparr> log_name = ''OnVerify'',
       events = [\<lparr> param_name = ''dataHash'', param_type = ''string'',
                   param_value = AbiString dataHash \<rparr>,
                 \<lparr> param_name = ''notarized'', param_type = ''bool'',
                   param_value = AbiBool notarized \<rparr>] \<rparr>"

section \<open>The Notarization Facade: \<^verbatim>\<open>notarize\<close>, \<^verbatim>\<open>verify\<close> and \<^verbatim>\<open>deploy\<close>\<close>

text \<open>
  What a handler has done for a request once the surroundings have acted as the schedule
  says: it is still awaiting the engine, it has sent a response, or it has thrown outside
  its \<^verbatim>\<open>try\<close> block, in which case no response is sent at all.
  \<^verbatim>\<open>res.send\<close> alone answers with status 200.
\<close>

datatype body =
    BodyResolution resolution
  | BodyVerify abi_value string
  | BodyError string
  | BodyException js_exception

record response =
  status_code :: nat
  body :: body

datatype handled = Uncaught js_exception | Awaiting | Responded response

text \<open>Lines 194 to 208.\<close>

definition notarize :: "web3_env \<Rightarrow> js_value \<Rightarrow> action list \<Rightarrow> handled" where
  "notarize env val sched =
     (case digest (digest_other env) val of
        Inl ex \<Rightarrow> Uncaught ex
      | Inr valueHash \<Rightarrow>
          (case submit env ''notarize'' [valueHash] True sched of
             None \<Rightarrow> Awaiting
           | Some (Resolved v) \<Rightarrow> Responded \<lparr> status_code = 200, body = BodyResolution v \<rparr>
           | Some (Rejected error) \<Rightarrow> Responded \<lparr> status_code = 500, body = BodyError error \<rparr>))"

text \<open>
  Line 224: \<^verbatim>\<open>abiDecoder.decodeLogs(receipt.logs)[0].events[1].value\<close>. Reading a
  property of \<^verbatim>\<open>undefined\<close> throws a TypeError: when the engine's value has no logs
  (it is a hash), when no log was decoded, when the first did not decode, and when it has
  fewer than two parameters.
\<close>

definition decode_notarized :: "web3_env \<Rightarrow> resolution \<Rightarrow> js_exception + abi_value" where
  "decode_notarized env v =
     (case v of
        HashValue h \<Rightarrow> Inl TypeError
      | ReceiptValue r \<Rightarrow>
          (case decodeLogs env (logs r) of
             [] \<Rightarrow> Inl TypeError
           | None # ds \<Rightarrow> Inl TypeError
           | Some d # ds \<Rightarrow>
               (case events d of
                  e0 # e1 # es \<Rightarrow> Inr (param_value e1)
                | _ \<Rightarrow> Inl TypeError)))"

text \<open>
  Lines 216 to 235. \<^verbatim>\<open>'verify'\<close> is sent with \<^verbatim>\<open>lastNonce\<close> and \<^verbatim>\<open>immediate\<close>
  undefined. \<^verbatim>\<open>receipt.transactionHash\<close> of a value that is a hash string is
  undefined, but line 224 has thrown before.
\<close>

definition verify :: "web3_env \<Rightarrow> js_value \<Rightarrow> action list \<Rightarrow> handled" where
  "verify env val sched =
     (case digest (digest_other env) val of
        Inl ex \<Rightarrow> Uncaught ex
      | Inr valueHash \<Rightarrow>
          (case submit env ''verify'' [valueHash] False sched of
             None \<Rightarrow> Awaiting
           | Some (Rejected error) \<Rightarrow> Responded \<lparr> status_code = 500, body = BodyError error \<rparr>
           | Some (Resolved v) \<Rightarrow>
               (case decode_notarized env v of
                  Inl ex \<Rightarrow> Responded \<lparr> status_code = 500, body = BodyException ex \<rparr>
                | Inr notarized \<Rightarrow>
                    Responded \<lparr> status_code = 200,
                                body = BodyVerify notarized
                                  (case v of ReceiptValue r \<Rightarrow> transactionHash r | HashValue h \<Rightarrow> []) \<rparr>)))"

text \<open>
  Lines 165 to 172: \<^verbatim>\<open>deploy\<close> sends the operation \<^verbatim>\<open>'deploy'\<close> with the
  bytecode, not early, and prints the contract address of the receipt.
\<close>

datatype console = Running | Printed "string option" | LoggedFailure string

definition deploy :: "web3_env \<Rightarrow> string \<Rightarrow> action list \<Rightarrow> console" where
  "deploy env bin sched =
     (case submit env ''deploy'' [bin] False sched of
        None \<Rightarrow> Running
      | Some (Rejected error) \<Rightarrow> LoggedFailure error
      | Some (Resolved (ReceiptValue r)) \<Rightarrow> Printed (receipt_contractAddress r)
      | Some (Resolved (HashValue h)) \<Rightarrow> Printed None)"

section \<open>Auxiliary notions for the proofs\<close>

text \<open>
  The part of a call that its handlers never change; the two tests of the error handler
  on the text of an error; the call that the retry branch makes; and the invariants of a
  configuration: a promise only follows a later call, whose nonce is one more; every
  call carries the operation of call 0 and a payload built from it; every poll is
  awaited by an existing call and was given the hash that call had received.
\<close>

definition static :: "attempt \<Rightarrow> string \<times> string list \<times> bool \<times> nat \<times> tx" where
  "static a = (methodName a, params a, immediate a, nonce a, sent a)"

definition timeout_text :: "string \<Rightarrow> bool" where
  "timeout_text e = (indexOf e ''within 50 blocks'' > - 1)"

definition transient_text :: "string \<Rightarrow> bool" where
  "transient_text e = (indexOf e ''known transaction'' > - 1 \<or> indexOf e ''underpriced'' > - 1)"

definition retry_of :: "web3_env \<Rightarrow> attempt \<Rightarrow> attempt" where
  "retry_of env a =
     \<lparr> methodName = methodName a, params = params a, immediate = immediate a,
       nonce = nonce a + 1,
       sent = build_tx env (methodName a) (params a) (nonce a + 1),
       txHash = None, promise = Pending \<rparr>"

definition chain_inv :: "attempt list \<Rightarrow> bool" where
  "chain_inv as =
     (\<forall>i < length as. \<forall>j. promise (as ! i) = Follows j \<longrightarrow>
        i < j \<and> j < length as \<and> nonce (as ! j) = nonce (as ! i) + 1)"

definition frame_inv :: "web3_env \<Rightarrow> attempt list \<Rightarrow> bool" where
  "frame_inv env as =
     (\<forall>k < length as.
        methodName (as ! k) = methodName (as ! 0) \<and> params (as ! k) = params (as ! 0) \<and>
        immediate (as ! k) = immediate (as ! 0) \<and>
        sent (as ! k) = build_tx env (methodName (as ! 0)) (params (as ! 0)) (nonce (as ! k)) \<and>
        (0 < k \<longrightarrow> nonce (as ! 0) < nonce (as ! k)))"

definition polls_inv :: "config \<Rightarrow> bool" where
  "polls_inv c =
     (\<forall>p < length (polls c).
        waiter (polls c ! p) < length (attempts c) \<and>
        (poll_hash (polls c ! p) \<noteq> None \<longrightarrow> txHash (attempts c ! waiter (polls c ! p)) \<noteq> None))"

definition settles :: "attempt \<Rightarrow> attempt \<Rightarrow> bool" where
  "settles a a' =
     (static a' = static a \<and>
      (promise a' = promise a \<or> (promise a = Pending \<and> (\<exists>s. promise a' = Settled s))) \<and>
      (txHash a \<noteq> None \<longrightarrow> txHash a' \<noteq> None))"



fun spawning :: "action \<Rightarrow> bool" where
  "spawning (Emit i (Error e)) = (\<not> timeout_text e \<and> transient_text e)"
| "spawning a = False"


text \<open>
  Notions for the polling fallback: an action is an event on call \<open>i\<close>; the RPC answers
  the receipt query of a poll that was given an undefined hash with a receipt; a schedule
  in which the RPC never does so; the hash of the latest hash-assigned event on call
  \<open>i\<close>; and the schedule in which the RPC answers one poll with null \<open>n\<close> times, the
  timer firing after each.
\<close>

fun emits_on :: "nat \<Rightarrow> action \<Rightarrow> bool" where
  "emits_on i (Emit k ev) = (k = i)"
| "emits_on i a = False"

fun answers_undefined :: "config \<Rightarrow> action \<Rightarrow> bool" where
  "answers_undefined c (PollReply p (Reply (Some r))) =
     (p < length (polls c) \<and> poll_hash (polls c ! p) = None)"
| "answers_undefined c a = False"

fun rpc_sound :: "web3_env \<Rightarrow> config \<Rightarrow> action list \<Rightarrow> bool" where
  "rpc_sound env c [] = True"
| "rpc_sound env c (a # sched) = (\<not> answers_undefined c a \<and> rpc_sound env (step env c a) sched)"

fun last_hash :: "nat \<Rightarrow> action list \<Rightarrow> string option" where
  "last_hash i [] = None"
| "last_hash i (a # sched) =
     (case last_hash i sched of
        Some h \<Rightarrow> Some h
      | None \<Rightarrow> (case a of
                   Emit k (TransactionHash h) \<Rightarrow> (if k = i then Some h else None)
                 | _ \<Rightarrow> None))"

definition null_rounds :: "nat \<Rightarrow> nat \<Rightarrow> action list" where
  "null_rounds p n = concat (replicate n [PollReply p (Reply None), TimerFired p])"

text \<open>A promise resolved with a bare hash belongs to a call made with the early flag.\<close>

definition hash_inv :: "attempt list \<Rightarrow> bool" where
  "hash_inv as =
     (\<forall>k < length as. \<forall>h. promise (as ! k) = Settled (Resolved (HashValue h)) \<longrightarrow> immediate (as ! k))"

section \<open>Concrete surroundings for the examples\<close>

text \<open>
  A contract with the two methods at a configured address, an account that has sent seven
  transactions, an encoding that concatenates the method name and its arguments, and a
  decoder that reads a log entry \<^verbatim>\<open>T<digest>\<close> or \<^verbatim>\<open>F<digest>\<close> as the event
  \<open>OnVerify\<close> of that digest.
\<close>

definition example_env :: web3_env where
  "example_env =
     \<lparr> options_address = Some ''0x58df3b0e'',
       methods = [''notarize'', ''verify''],
       encodeABI_method = (\<lambda>m ps. m @ concat ps),
       encodeABI_deploy = (\<lambda>p. case p of None \<Rightarrow> [] | Some b \<Rightarrow> b),
       getTransactionCount = Inr 7,
       decodeLogs = map (\<lambda>l. case l of
                            [] \<Rightarrow> None
                          | x # h \<Rightarrow> (if x = CHR ''T'' then Some (decoded_event (OnVerify h True))
                                       else if x = CHR ''F'' then Some (decoded_event (OnVerify h False))
                                       else None)),
       digest_other = (\<lambda>k. Inl TypeError) \<rparr>"

definition example_call :: "string \<Rightarrow> bool \<Rightarrow> attempt" where
  "example_call m imm =
     \<lparr> methodName = m, params = [''ab''], immediate = imm, nonce = 7,
       sent = \<lparr> tx_data = m @ ''ab'', tx_gasLimit = ''0x61a80'', tx_gasPrice = ''0x4a817c800'',
                tx_nonce = ''0x7'', tx_to = Some ''0x58df3b0e'' \<rparr>,
       txHash = None, promise = Pending \<rparr>"

definition example_receipt :: receipt where
  "example_receipt = \<lparr> transactionHash = ''0xh1'', logs = [''Tab''], receipt_contractAddress = None \<rparr>"
section \<open>Properties of the string functions\<close>


lemma indexOf_from_nonneg_or_minus1: "indexOf_from k s p = - 1 \<or> 0 \<le> indexOf_from k s p"
  by (induction k s p rule: indexOf_from.induct) simp_all






section \<open>Properties of the engine\<close>

lemma nth_list_update_if: "k < length xs \<Longrightarrow> xs[i := x] ! k = (if i = k then x else xs ! k)"
  by (cases "i = k") simp_all

lemma static_resolve [simp]: "static (resolve v a) = static a"
  by (simp add: static_def resolve_def)

lemma static_reject [simp]: "static (reject e a) = static a"
  by (simp add: static_def reject_def)

lemma static_resolve_with_call [simp]: "static (resolve_with_call j a) = static a"
  by (simp add: static_def resolve_with_call_def)

lemma static_on_transactionHash [simp]: "static (on_transactionHash h a) = static a"
  by (simp add: static_def on_transactionHash_def resolve_def Let_def)

lemma static_on_receipt [simp]: "static (on_receipt r a) = static a"
  by (simp add: on_receipt_def)

lemma length_on_error: "length (attempts c) \<le> length (attempts (on_error env i e c))"
  by (simp add: on_error_def Let_def split: sum.splits)

lemma length_on_poll_reply [simp]: "length (attempts (on_poll_reply p rep c)) = length (attempts c)"
  by (simp add: on_poll_reply_def Let_def split: poll_status.splits)

lemma length_attempts_step: "length (attempts c) \<le> length (attempts (step env c a))"
  by (cases a) (auto simp: length_on_error split: event.splits)

lemma length_attempts_run: "length (attempts c) \<le> length (attempts (run env c sched))"
proof (induction sched arbitrary: c)
  case Nil
  show ?case by (simp add: run_def)
next
  case (Cons a sched)
  have "length (attempts c) \<le> length (attempts (step env c a))"
    by (rule length_attempts_step)
  also have "\<dots> \<le> length (attempts (run env (step env c a) sched))"
    by (rule Cons.IH)
  finally show ?case by (simp add: run_def)
qed

lemma run_Cons: "run env c (a # sched) = run env (step env c a) sched"
  by (simp add: run_def)

lemma run_Nil: "run env c [] = c"
  by (simp add: run_def)

lemma run_append: "run env c (s1 @ s2) = run env (run env c s1) s2"
  by (simp add: run_def)

lemma static_on_error:
  "i < length (attempts c) \<Longrightarrow> k < length (attempts c) \<Longrightarrow>
   static (attempts (on_error env i e c) ! k) = static (attempts c ! k)"
  by (auto simp: on_error_def Let_def nth_append nth_list_update_if split: sum.splits)

lemma static_on_poll_reply:
  "k < length (attempts c) \<Longrightarrow>
   static (attempts (on_poll_reply p rep c) ! k) = static (attempts c ! k)"
  by (auto simp: on_poll_reply_def Let_def nth_list_update_if split: poll_status.splits)

lemma static_step:
  "k < length (attempts c) \<Longrightarrow> static (attempts (step env c a) ! k) = static (attempts c ! k)"
  by (cases a) (auto simp: static_on_error static_on_poll_reply nth_list_update_if split: event.splits)

lemma static_run:
  "k < length (attempts c) \<Longrightarrow> static (attempts (run env c sched) ! k) = static (attempts c ! k)"
proof (induction sched arbitrary: c)
  case Nil
  show ?case by (simp add: run_Nil)
next
  case (Cons a sched)
  have "k < length (attempts (step env c a))"
    using Cons.prems length_attempts_step [of c env a] by simp
  then have "static (attempts (run env (step env c a) sched) ! k) = static (attempts (step env c a) ! k)"
    by (rule Cons.IH)
  with Cons.prems show ?case by (simp add: run_Cons static_step)
qed

text \<open>A promise that is not pending never changes.\<close>

lemma promise_resolve: "promise a \<noteq> Pending \<Longrightarrow> promise (resolve v a) = promise a"
  by (simp add: resolve_def)

lemma promise_reject: "promise a \<noteq> Pending \<Longrightarrow> promise (reject e a) = promise a"
  by (simp add: reject_def)

lemma promise_resolve_with_call: "promise a \<noteq> Pending \<Longrightarrow> promise (resolve_with_call j a) = promise a"
  by (simp add: resolve_with_call_def)

lemma promise_on_transactionHash:
  "promise a \<noteq> Pending \<Longrightarrow> promise (on_transactionHash h a) = promise a"
  by (simp add: on_transactionHash_def resolve_def Let_def)

lemma promise_on_error:
  "i < length (attempts c) \<Longrightarrow> k < length (attempts c) \<Longrightarrow> promise (attempts c ! k) \<noteq> Pending \<Longrightarrow>
   promise (attempts (on_error env i e c) ! k) = promise (attempts c ! k)"
  by (auto simp: on_error_def Let_def nth_append nth_list_update_if promise_reject
      promise_resolve_with_call split: sum.splits)

lemma promise_on_poll_reply:
  "k < length (attempts c) \<Longrightarrow> promise (attempts c ! k) \<noteq> Pending \<Longrightarrow>
   promise (attempts (on_poll_reply p rep c) ! k) = promise (attempts c ! k)"
  by (auto simp: on_poll_reply_def Let_def nth_list_update_if promise_resolve split: poll_status.splits)

lemma promise_step:
  "k < length (attempts c) \<Longrightarrow> promise (attempts c ! k) \<noteq> Pending \<Longrightarrow>
   promise (attempts (step env c a) ! k) = promise (attempts c ! k)"
  by (cases a) (auto simp: promise_on_error promise_on_poll_reply nth_list_update_if
      promise_on_transactionHash on_receipt_def promise_resolve split: event.splits)

lemma promise_run:
  "k < length (attempts c) \<Longrightarrow> promise (attempts c ! k) \<noteq> Pending \<Longrightarrow>
   promise (attempts (run env c sched) ! k) = promise (attempts c ! k)"
proof (induction sched arbitrary: c)
  case Nil
  show ?case by (simp add: run_Nil)
next
  case (Cons a sched)
  have k: "k < length (attempts (step env c a))"
    using Cons.prems length_attempts_step [of c env a] by simp
  have p: "promise (attempts (step env c a) ! k) = promise (attempts c ! k)"
    using Cons.prems by (simp add: promise_step)
  with Cons.prems have "promise (attempts (step env c a) ! k) \<noteq> Pending" by simp
  with k have "promise (attempts (run env (step env c a) sched) ! k) = promise (attempts (step env c a) ! k)"
    by (rule Cons.IH)
  with p show ?case by (simp add: run_Cons)
qed


lemma sendTransaction_retry:
  "sendTransaction env m ps (Some n) imm =
     Inr \<lparr> methodName = m, params = ps, immediate = imm, nonce = n + 1,
           sent = build_tx env m ps (n + 1), txHash = None, promise = Pending \<rparr>"
  by (simp add: sendTransaction_def compute_nonce_def)

lemma on_error_timeout:
  "timeout_text e \<Longrightarrow>
   on_error env i e c = c\<lparr>polls := polls c @ [pollTransaction (txHash (attempts c ! i)) i]\<rparr>"
  by (simp add: on_error_def timeout_text_def Let_def)

lemma on_error_transient:
  "\<not> timeout_text e \<Longrightarrow> transient_text e \<Longrightarrow>
   on_error env i e c =
     c\<lparr>attempts := (attempts c)[i := resolve_with_call (length (attempts c)) (attempts c ! i)]
                      @ [retry_of env (attempts c ! i)]\<rparr>"
  unfolding on_error_def timeout_text_def transient_text_def Let_def retry_of_def
  by (simp add: sendTransaction_retry)

lemma on_error_fatal:
  "\<not> timeout_text e \<Longrightarrow> \<not> transient_text e \<Longrightarrow>
   on_error env i e c = c\<lparr>attempts := (attempts c)[i := reject e (attempts c ! i)]\<rparr>"
  unfolding on_error_def timeout_text_def transient_text_def Let_def
  by simp

text \<open>What one action can do to the list of calls.\<close>

lemma settles_refl [simp]: "settles a a"
  by (simp add: settles_def)

lemma settles_resolve [simp]: "settles a (resolve v a)"
  by (simp add: settles_def resolve_def static_def)

lemma settles_reject [simp]: "settles a (reject e a)"
  by (simp add: settles_def reject_def static_def)

lemma settles_on_transactionHash [simp]: "settles a (on_transactionHash h a)"
  by (simp add: settles_def on_transactionHash_def resolve_def static_def Let_def)

lemma settles_on_receipt [simp]: "settles a (on_receipt r a)"
  by (simp add: on_receipt_def)

lemma step_shape:
  "(\<exists>i a'. attempts (step env c a) = (attempts c)[i := a'] \<and> settles (attempts c ! i) a'
        \<and> length (polls c) \<le> length (polls (step env c a)))
   \<or> (\<exists>i. i < length (attempts c) \<and>
        attempts (step env c a) =
          (attempts c)[i := resolve_with_call (length (attempts c)) (attempts c ! i)]
            @ [retry_of env (attempts c ! i)] \<and> polls (step env c a) = polls c)"
proof (cases a)
  case (Emit i ev)
  show ?thesis
  proof (cases "i < length (attempts c)")
    case False
    with Emit have "attempts (step env c a) = (attempts c)[i := attempts c ! i]" by simp
    moreover from Emit False have "polls (step env c a) = polls c" by simp
    ultimately show ?thesis using settles_refl by (metis order_refl)
  next
    case True
    show ?thesis
    proof (cases ev)
      case (TransactionHash h)
      with Emit True have "attempts (step env c a) = (attempts c)[i := on_transactionHash h (attempts c ! i)]"
        and "polls (step env c a) = polls c" by simp_all
      then show ?thesis using settles_on_transactionHash by (metis order_refl)
    next
      case (Receipt r)
      with Emit True have "attempts (step env c a) = (attempts c)[i := on_receipt r (attempts c ! i)]"
        and "polls (step env c a) = polls c" by simp_all
      then show ?thesis using settles_on_receipt by (metis order_refl)
    next
      case (Error e)
      with Emit True have s: "step env c a = on_error env i e c" by simp
      consider (t) "timeout_text e" | (r) "\<not> timeout_text e" "transient_text e"
        | (f) "\<not> timeout_text e" "\<not> transient_text e" by blast
      then show ?thesis
      proof cases
        case t
        then have "attempts (step env c a) = (attempts c)[i := attempts c ! i]"
          and "length (polls c) \<le> length (polls (step env c a))"
          by (simp_all add: s on_error_timeout)
        then show ?thesis using settles_refl by metis
      next
        case r
        then have "attempts (step env c a) =
            (attempts c)[i := resolve_with_call (length (attempts c)) (attempts c ! i)]
              @ [retry_of env (attempts c ! i)]"
          and "polls (step env c a) = polls c"
          by (simp_all add: s on_error_transient)
        with True show ?thesis by blast
      next
        case f
        then have "attempts (step env c a) = (attempts c)[i := reject e (attempts c ! i)]"
          and "polls (step env c a) = polls c"
          by (simp_all add: s on_error_fatal)
        then show ?thesis using settles_reject by (metis order_refl)
      qed
    qed
  qed
next
  case (PollReply p rep)
  show ?thesis
  proof (cases "p < length (polls c) \<and> status (polls c ! p) = Querying")
    case False
    with PollReply have "step env c a = c" by auto
    then have "attempts (step env c a) = (attempts c)[0 := attempts c ! 0]"
      and "polls (step env c a) = polls c" by simp_all
    then show ?thesis using settles_refl by (metis order_refl)
  next
    case True
    with PollReply have s: "step env c a = on_poll_reply p rep c" by simp
    let ?q = "tick_reply rep (polls c ! p)"
    show ?thesis
    proof (cases "status ?q")
      case (Finished r)
      then have "attempts (step env c a) =
          (attempts c)[waiter ?q := resolve (ReceiptValue r) (attempts c ! waiter ?q)]"
        and "length (polls c) \<le> length (polls (step env c a))"
        by (simp_all add: s on_poll_reply_def Let_def)
      then show ?thesis using settles_resolve by metis
    next
      case Querying
      then have "attempts (step env c a) = (attempts c)[0 := attempts c ! 0]"
        and "length (polls c) \<le> length (polls (step env c a))"
        by (simp_all add: s on_poll_reply_def Let_def)
      then show ?thesis using settles_refl by metis
    next
      case (Sleeping d)
      then have "attempts (step env c a) = (attempts c)[0 := attempts c ! 0]"
        and "length (polls c) \<le> length (polls (step env c a))"
        by (simp_all add: s on_poll_reply_def Let_def)
      then show ?thesis using settles_refl by metis
    next
      case Dead
      then have "attempts (step env c a) = (attempts c)[0 := attempts c ! 0]"
        and "length (polls c) \<le> length (polls (step env c a))"
        by (simp_all add: s on_poll_reply_def Let_def)
      then show ?thesis using settles_refl by metis
    qed
  qed
next
  case (TimerFired p)
  then have "attempts (step env c a) = (attempts c)[0 := attempts c ! 0]"
    and "length (polls c) \<le> length (polls (step env c a))" by simp_all
  then show ?thesis using settles_refl by metis
qed


lemma static_fields:
  "static a' = static a \<Longrightarrow>
   methodName a' = methodName a \<and> params a' = params a \<and> immediate a' = immediate a \<and>
   nonce a' = nonce a \<and> sent a' = sent a"
  by (simp add: static_def)

lemma nonce_step: "k < length (attempts c) \<Longrightarrow> nonce (attempts (step env c a) ! k) = nonce (attempts c ! k)"
  using static_step [of k c env a] static_fields by blast

lemma promise_step_cases:
  assumes "k < length (attempts c)"
  shows "promise (attempts (step env c a) ! k) = promise (attempts c ! k)
       \<or> (promise (attempts c ! k) = Pending \<and> (\<exists>s. promise (attempts (step env c a) ! k) = Settled s))
       \<or> (promise (attempts c ! k) = Pending \<and>
           promise (attempts (step env c a) ! k) = Follows (length (attempts c)) \<and>
           length (attempts (step env c a)) = Suc (length (attempts c)) \<and>
           attempts (step env c a) ! length (attempts c) = retry_of env (attempts c ! k))"
proof -
  let ?as = "attempts c" and ?as' = "attempts (step env c a)"
  from step_shape [of env c a] consider
    (upd) i a' where "?as' = ?as[i := a']" "settles (?as ! i) a'"
  | (new) i where "i < length ?as"
      "?as' = ?as[i := resolve_with_call (length ?as) (?as ! i)] @ [retry_of env (?as ! i)]"
    by blast
  then show ?thesis
  proof cases
    case upd
    show ?thesis
    proof (cases "i = k")
      case True
      with upd assms have "?as' ! k = a'" by simp
      with upd(2) True show ?thesis by (auto simp: settles_def)
    next
      case False
      with upd have "?as' ! k = ?as ! k" by simp
      then show ?thesis by simp
    qed
  next
    case new
    have n: "?as' ! length ?as = retry_of env (?as ! i)"
      using new(2) by (simp add: nth_append)
    have l: "length ?as' = Suc (length ?as)" using new(2) by simp
    show ?thesis
    proof (cases "i = k")
      case True
      with new assms have "?as' ! k = resolve_with_call (length ?as) (?as ! k)"
        by (simp add: nth_append)
      with n l True show ?thesis by (auto simp: resolve_with_call_def)
    next
      case False
      with new assms have "?as' ! k = ?as ! k" by (simp add: nth_append)
      then show ?thesis by simp
    qed
  qed
qed

lemma new_call_shape:
  assumes "length (attempts c) \<le> k" "k < length (attempts (step env c a))"
  shows "k = length (attempts c) \<and> (\<exists>i < length (attempts c).
           attempts (step env c a) ! k = retry_of env (attempts c ! i))"
proof -
  let ?as = "attempts c" and ?as' = "attempts (step env c a)"
  from step_shape [of env c a] consider
    (upd) i a' where "?as' = ?as[i := a']"
  | (new) i where "i < length ?as"
      "?as' = ?as[i := resolve_with_call (length ?as) (?as ! i)] @ [retry_of env (?as ! i)]"
    by blast
  then show ?thesis
  proof cases
    case upd
    with assms show ?thesis by simp
  next
    case new
    with assms have "k = length ?as" by simp
    moreover have "?as' ! length ?as = retry_of env (?as ! i)"
      using new(2) by (simp add: nth_append)
    ultimately show ?thesis using new(1) by blast
  qed
qed


lemma chain_inv_step:
  assumes "chain_inv (attempts c)"
  shows "chain_inv (attempts (step env c a))"
  unfolding chain_inv_def
proof (intro allI impI)
  let ?as = "attempts c" and ?as' = "attempts (step env c a)"
  fix k j
  assume k: "k < length ?as'" and f: "promise (?as' ! k) = Follows j"
  have le: "length ?as \<le> length ?as'" by (rule length_attempts_step)
  show "k < j \<and> j < length ?as' \<and> nonce (?as' ! j) = nonce (?as' ! k) + 1"
  proof (cases "k < length ?as")
    case False
    then have "length ?as \<le> k" by simp
    from new_call_shape [OF this k] obtain i where "?as' ! k = retry_of env (?as ! i)"
      by blast
    with f show ?thesis by (simp add: retry_of_def)
  next
    case True
    from promise_step_cases [OF True, of env a] f consider
      (old) "promise (?as ! k) = Follows j"
    | (new) "j = length ?as" "length ?as' = Suc (length ?as)"
        "?as' ! length ?as = retry_of env (?as ! k)"
      by fastforce
    then show ?thesis
    proof cases
      case old
      with assms True have j: "k < j \<and> j < length ?as \<and> nonce (?as ! j) = nonce (?as ! k) + 1"
        unfolding chain_inv_def by blast
      then have "nonce (?as' ! j) = nonce (?as ! j)" by (simp add: nonce_step)
      moreover have "nonce (?as' ! k) = nonce (?as ! k)" using True by (simp add: nonce_step)
      ultimately show ?thesis using j le by simp
    next
      case new
      have "nonce (?as' ! k) = nonce (?as ! k)" using True by (simp add: nonce_step)
      moreover have "nonce (?as' ! j) = nonce (?as ! k) + 1" using new by (simp add: retry_of_def)
      ultimately show ?thesis using new True by simp
    qed
  qed
qed

lemma frame_inv_step:
  assumes "frame_inv env (attempts c)"
  shows "frame_inv env (attempts (step env c a))"
  unfolding frame_inv_def
proof (intro allI impI)
  let ?as = "attempts c" and ?as' = "attempts (step env c a)"
  fix k
  assume k: "k < length ?as'"
  have st: "\<And>i. i < length ?as \<Longrightarrow> static (?as' ! i) = static (?as ! i)"
    by (rule static_step)
  show "methodName (?as' ! k) = methodName (?as' ! 0) \<and> params (?as' ! k) = params (?as' ! 0) \<and>
        immediate (?as' ! k) = immediate (?as' ! 0) \<and>
        sent (?as' ! k) = build_tx env (methodName (?as' ! 0)) (params (?as' ! 0)) (nonce (?as' ! k)) \<and>
        (0 < k \<longrightarrow> nonce (?as' ! 0) < nonce (?as' ! k))"
  proof (cases "k < length ?as")
    case True
    then have z: "0 < length ?as" by (cases "attempts c") simp_all
    note fk = static_fields [OF st [OF True]]
    note f0 = static_fields [OF st [OF z]]
    from assms True have old:
      "methodName (?as ! k) = methodName (?as ! 0) \<and> params (?as ! k) = params (?as ! 0) \<and>
       immediate (?as ! k) = immediate (?as ! 0) \<and>
       sent (?as ! k) = build_tx env (methodName (?as ! 0)) (params (?as ! 0)) (nonce (?as ! k)) \<and>
       (0 < k \<longrightarrow> nonce (?as ! 0) < nonce (?as ! k))"
      unfolding frame_inv_def by blast
    show ?thesis using fk f0 old by simp
  next
    case False
    then have "length ?as \<le> k" by simp
    from new_call_shape [OF this k] obtain i where i: "i < length ?as"
      and r: "?as' ! k = retry_of env (?as ! i)" and kk: "k = length ?as"
      by blast
    from i have z: "0 < length ?as" by (cases "attempts c") simp_all
    note f0 = static_fields [OF st [OF z]]
    from assms i have old:
      "methodName (?as ! i) = methodName (?as ! 0) \<and> params (?as ! i) = params (?as ! 0) \<and>
       immediate (?as ! i) = immediate (?as ! 0) \<and>
       (0 < i \<longrightarrow> nonce (?as ! 0) < nonce (?as ! i))"
      unfolding frame_inv_def by blast
    then have le: "nonce (?as ! 0) \<le> nonce (?as ! i)"
      by (cases "i = 0") (simp_all add: less_imp_le)
    have fr: "methodName (?as' ! k) = methodName (?as ! i) \<and> params (?as' ! k) = params (?as ! i) \<and>
       immediate (?as' ! k) = immediate (?as ! i) \<and> nonce (?as' ! k) = nonce (?as ! i) + 1 \<and>
       sent (?as' ! k) = build_tx env (methodName (?as ! i)) (params (?as ! i)) (nonce (?as ! i) + 1)"
      by (simp add: r retry_of_def)
    show ?thesis using f0 old le fr by simp
  qed
qed

lemma chain_inv_run: "chain_inv (attempts c) \<Longrightarrow> chain_inv (attempts (run env c sched))"
  by (induction sched arbitrary: c) (simp_all add: run_Nil run_Cons chain_inv_step)

lemma frame_inv_run: "frame_inv env (attempts c) \<Longrightarrow> frame_inv env (attempts (run env c sched))"
  by (induction sched arbitrary: c) (simp_all add: run_Nil run_Cons frame_inv_step)

lemma chain_inv_start: "promise a = Pending \<Longrightarrow> chain_inv (attempts (start a))"
  by (simp add: chain_inv_def start_def)

lemma sendTransaction_shape:
  "sendTransaction env m ps lastNonce imm = Inr a \<Longrightarrow>
   methodName a = m \<and> params a = ps \<and> immediate a = imm \<and> txHash a = None \<and>
   promise a = Pending \<and> sent a = build_tx env m ps (nonce a) \<and>
   compute_nonce env lastNonce = Inr (nonce a)"
  by (auto simp: sendTransaction_def split: sum.splits)

lemma frame_inv_start:
  assumes "sendTransaction env m ps lastNonce imm = Inr a"
  shows "frame_inv env (attempts (start a))"
proof -
  from sendTransaction_shape [OF assms]
  have "sent a = build_tx env (methodName a) (params a) (nonce a)" by simp
  then show ?thesis by (simp add: frame_inv_def start_def)
qed



lemma outcome_Pending: "promise (attempts c ! i) = Pending \<Longrightarrow> outcome c i = None"
  by (cases "length (attempts c)") (simp_all add: outcome_def)

lemma outcome_Settled:
  "i < length (attempts c) \<Longrightarrow> promise (attempts c ! i) = Settled s \<Longrightarrow> outcome c i = Some s"
  by (cases "length (attempts c)") (simp_all add: outcome_def)


lemma outcome_run_Settled:
  assumes "i < length (attempts c)" "promise (attempts c ! i) = Settled s"
  shows "outcome (run env c sched) i = Some s"
proof -
  have "promise (attempts (run env c sched) ! i) = Settled s"
    using assms by (simp add: promise_run)
  moreover have "i < length (attempts (run env c sched))"
    using assms(1) length_attempts_run [of c env sched] by simp
  ultimately show ?thesis by (rule outcome_Settled [rotated])
qed


lemma toHex_gasLimit: "toHex 400000 = ''0x61a80''"
  by (simp add: toHex_def hex_of_nat.simps hex_digit_def)

lemma toHex_gasPrice: "toHex 20000000000 = ''0x4a817c800''"
  by (simp add: toHex_def hex_of_nat.simps hex_digit_def)

lemma toHex_7: "toHex 7 = ''0x7''"
  by (simp add: toHex_def hex_of_nat.simps hex_digit_def)

lemma example_sendTransaction:
  "m \<in> {''notarize'', ''verify''} \<Longrightarrow>
   sendTransaction example_env m [''ab''] None imm = Inr (example_call m imm)"
  by (auto simp add: sendTransaction_def compute_nonce_def example_env_def example_call_def
      build_tx_def toHex_gasLimit toHex_gasPrice toHex_7)


lemma length_step_not_spawning:
  "\<not> spawning a \<Longrightarrow> length (attempts (step env c a)) = length (attempts c)"
proof (cases a)
  case (Emit i ev)
  assume ns: "\<not> spawning a"
  show ?thesis
  proof (cases ev)
    case (Error e)
    with Emit ns consider "timeout_text e" | "\<not> timeout_text e" "\<not> transient_text e" by auto
    then show ?thesis
      using Emit Error by cases (simp_all add: on_error_timeout on_error_fatal)
  qed (simp_all add: Emit)
next
  case (PollReply p rep)
  then show ?thesis by simp
next
  case (TimerFired p)
  then show ?thesis by simp
qed

lemma sent_step: "k < length (attempts c) \<Longrightarrow> sent (attempts (step env c a) ! k) = sent (attempts c ! k)"
  using static_step [of k c env a] static_fields by blast

lemma sent_step_not_spawning:
  assumes "\<not> spawning a"
  shows "map sent (attempts (step env c a)) = map sent (attempts c)"
proof (rule nth_equalityI)
  show "length (map sent (attempts (step env c a))) = length (map sent (attempts c))"
    using assms by (simp add: length_step_not_spawning)
next
  fix k assume "k < length (map sent (attempts (step env c a)))"
  then have "k < length (attempts c)" using assms by (simp add: length_step_not_spawning)
  then show "map sent (attempts (step env c a)) ! k = map sent (attempts c) ! k"
    using assms by (simp add: length_step_not_spawning sent_step)
qed

lemma sent_run_not_spawning:
  "\<forall>a \<in> set sched. \<not> spawning a \<Longrightarrow> map sent (attempts (run env c sched)) = map sent (attempts c)"
  by (induction sched arbitrary: c) (simp_all add: run_Nil run_Cons sent_step_not_spawning)

lemma start_attempts [simp]: "attempts (start a) = [a]" and start_polls [simp]: "polls (start a) = []"
  by (simp_all add: start_def)

lemma reachable_invs:
  assumes "sendTransaction env m ps lastNonce imm = Inr a0"
  shows "chain_inv (attempts (run env (start a0) sched))"
    and "frame_inv env (attempts (run env (start a0) sched))"
    and "0 < length (attempts (run env (start a0) sched))"
    and "static (attempts (run env (start a0) sched) ! 0) = static a0"
proof -
  from sendTransaction_shape [OF assms] have "promise a0 = Pending" by simp
  then show "chain_inv (attempts (run env (start a0) sched))"
    by (intro chain_inv_run chain_inv_start)
  show "frame_inv env (attempts (run env (start a0) sched))"
    by (intro frame_inv_run frame_inv_start [OF assms])
  have "length (attempts (start a0)) = 1" by simp
  with length_attempts_run [of "start a0" env sched]
  show "0 < length (attempts (run env (start a0) sched))" by arith
  show "static (attempts (run env (start a0) sched) ! 0) = static a0"
    using static_run [of 0 "start a0" env sched] by simp
qed

lemma reachable_call:
  assumes "sendTransaction env m ps lastNonce imm = Inr a0"
    and "k < length (attempts (run env (start a0) sched))"
  shows "methodName (attempts (run env (start a0) sched) ! k) = m"
    and "params (attempts (run env (start a0) sched) ! k) = ps"
    and "immediate (attempts (run env (start a0) sched) ! k) = imm"
    and "sent (attempts (run env (start a0) sched) ! k)
           = build_tx env m ps (nonce (attempts (run env (start a0) sched) ! k))"
proof -
  let ?as = "attempts (run env (start a0) sched)"
  note s = sendTransaction_shape [OF assms(1)]
  note f0 = static_fields [OF reachable_invs(4) [OF assms(1), of sched]]
  from reachable_invs(2) [OF assms(1), of sched] assms(2)
  have fr: "methodName (?as ! k) = methodName (?as ! 0) \<and> params (?as ! k) = params (?as ! 0) \<and>
        immediate (?as ! k) = immediate (?as ! 0) \<and>
        sent (?as ! k) = build_tx env (methodName (?as ! 0)) (params (?as ! 0)) (nonce (?as ! k))"
    unfolding frame_inv_def by blast
  show "methodName (?as ! k) = m" using fr f0 s by simp
  show "params (?as ! k) = ps" using fr f0 s by simp
  show "immediate (?as ! k) = imm" using fr f0 s by simp
  show "sent (?as ! k) = build_tx env m ps (nonce (?as ! k))" using fr f0 s by simp
qed

lemma underpriced_text:
  "transient_text ''replacement transaction underpriced''"
  "\<not> timeout_text ''replacement transaction underpriced''"
  by (simp_all add: transient_text_def timeout_text_def indexOf_def)


lemma fatal_text:
  "\<not> transient_text ''insufficient funds''"
  "\<not> timeout_text ''insufficient funds''"
  by (simp_all add: transient_text_def timeout_text_def indexOf_def)

lemma timeout_only_text:
  "\<not> transient_text ''not mined within 50 blocks''"
  "timeout_text ''not mined within 50 blocks''"
  by (simp_all add: transient_text_def timeout_text_def indexOf_def)

lemma promise_reject_Pending: "promise a = Pending \<Longrightarrow> promise (reject e a) = Settled (Rejected e)"
  by (simp add: reject_def)

lemma promise_resolve_Pending: "promise a = Pending \<Longrightarrow> promise (resolve v a) = Settled (Resolved v)"
  by (simp add: resolve_def)

lemma submit_fresh:
  "sendTransaction env m ps None imm = Inr a0 \<Longrightarrow>
   submit env m ps imm sched = outcome (run env (start a0) sched) 0"
  by (simp add: submit_def)

lemma tick_reply_static [simp]:
  "poll_hash (tick_reply rep q) = poll_hash q" "waiter (tick_reply rep q) = waiter q"
  "queries (tick_reply rep q) = queries q"
  by (simp_all add: tick_reply_def split: rpc_reply.splits option.splits)

lemma timer_fired_static [simp]:
  "poll_hash (timer_fired q) = poll_hash q" "waiter (timer_fired q) = waiter q"
  by (simp_all add: timer_fired_def split: poll_status.splits)

lemma polls_on_poll_reply:
  "polls (on_poll_reply p rep c) = (polls c)[p := tick_reply rep (polls c ! p)]"
  by (simp add: on_poll_reply_def Let_def split: poll_status.splits)

lemma polls_step_cases:
  "polls (step env c a) = polls c
   \<or> (\<exists>p q. p < length (polls c) \<and> polls (step env c a) = (polls c)[p := q]
        \<and> poll_hash q = poll_hash (polls c ! p) \<and> waiter q = waiter (polls c ! p))
   \<or> (\<exists>i e. a = Emit i (Error e) \<and> i < length (attempts c) \<and> attempts (step env c a) = attempts c
        \<and> polls (step env c a) = polls c @ [pollTransaction (txHash (attempts c ! i)) i])"
proof (cases a)
  case (Emit i ev)
  show ?thesis
  proof (cases "i < length (attempts c)")
    case False
    with Emit show ?thesis by simp
  next
    case True
    show ?thesis
    proof (cases ev)
      case (Error e)
      consider (t) "timeout_text e" | (r) "\<not> timeout_text e" "transient_text e"
        | (f) "\<not> timeout_text e" "\<not> transient_text e" by blast
      then show ?thesis
      proof cases
        case t
        with Emit Error True have "attempts (step env c a) = attempts c"
          "polls (step env c a) = polls c @ [pollTransaction (txHash (attempts c ! i)) i]"
          by (simp_all add: on_error_timeout)
        with Emit Error True show ?thesis by blast
      next
        case r
        with Emit Error True show ?thesis by (simp add: on_error_transient)
      next
        case f
        with Emit Error True show ?thesis by (simp add: on_error_fatal)
      qed
    qed (simp_all add: Emit True)
  qed
next
  case (PollReply p rep)
  show ?thesis
  proof (cases "p < length (polls c) \<and> status (polls c ! p) = Querying")
    case False
    with PollReply show ?thesis by auto
  next
    case True
    with PollReply have "polls (step env c a) = (polls c)[p := tick_reply rep (polls c ! p)]"
      by (simp add: polls_on_poll_reply)
    with True show ?thesis using tick_reply_static by blast
  qed
next
  case (TimerFired p)
  show ?thesis
  proof (cases "p < length (polls c)")
    case False
    with TimerFired show ?thesis by simp
  next
    case True
    with TimerFired have "polls (step env c a) = (polls c)[p := timer_fired (polls c ! p)]"
      by simp
    with True show ?thesis using timer_fired_static by blast
  qed
qed

lemma length_polls_step: "length (polls c) \<le> length (polls (step env c a))"
  using polls_step_cases [of env c a] by auto

lemma poll_static_step:
  assumes "p < length (polls c)"
  shows "poll_hash (polls (step env c a) ! p) = poll_hash (polls c ! p)
       \<and> waiter (polls (step env c a) ! p) = waiter (polls c ! p)"
proof -
  from polls_step_cases [of env c a] consider
    (same) "polls (step env c a) = polls c"
  | (upd) p' q where "p' < length (polls c)" "polls (step env c a) = (polls c)[p' := q]"
      "poll_hash q = poll_hash (polls c ! p')" "waiter q = waiter (polls c ! p')"
  | (new) x where "polls (step env c a) = polls c @ [x]"
    by blast
  then show ?thesis
  proof cases
    case same
    then show ?thesis by simp
  next
    case upd
    then show ?thesis using assms by (cases "p' = p") simp_all
  next
    case new
    then show ?thesis using assms by (simp add: nth_append)
  qed
qed

lemma txHash_on_error:
  "i < length (attempts c) \<Longrightarrow> k < length (attempts c) \<Longrightarrow>
   txHash (attempts (on_error env i e c) ! k) = txHash (attempts c ! k)"
  by (auto simp: on_error_def Let_def nth_append nth_list_update_if reject_def
      resolve_with_call_def split: sum.splits)

lemma txHash_on_poll_reply:
  "k < length (attempts c) \<Longrightarrow>
   txHash (attempts (on_poll_reply p rep c) ! k) = txHash (attempts c ! k)"
  by (auto simp: on_poll_reply_def Let_def nth_list_update_if resolve_def split: poll_status.splits)

lemma txHash_step:
  "i < length (attempts c) \<Longrightarrow>
   txHash (attempts (step env c a) ! i) =
     (case a of
        Emit k (TransactionHash h) \<Rightarrow> (if k = i then Some h else txHash (attempts c ! i))
      | _ \<Rightarrow> txHash (attempts c ! i))"
  by (cases a)
    (auto simp: txHash_on_error txHash_on_poll_reply nth_list_update_if on_transactionHash_def
      on_receipt_def resolve_def Let_def split: event.splits)

lemma txHash_step_mono:
  "i < length (attempts c) \<Longrightarrow> txHash (attempts c ! i) \<noteq> None \<Longrightarrow>
   txHash (attempts (step env c a) ! i) \<noteq> None"
  by (simp add: txHash_step split: action.splits event.splits)

lemma polls_inv_step:
  assumes "polls_inv c"
  shows "polls_inv (step env c a)"
  unfolding polls_inv_def
proof (intro allI impI)
  let ?c' = "step env c a"
  fix p assume p: "p < length (polls ?c')"
  have le: "length (attempts c) \<le> length (attempts ?c')" by (rule length_attempts_step)
  show "waiter (polls ?c' ! p) < length (attempts ?c') \<and>
        (poll_hash (polls ?c' ! p) \<noteq> None \<longrightarrow> txHash (attempts ?c' ! waiter (polls ?c' ! p)) \<noteq> None)"
  proof (cases "p < length (polls c)")
    case True
    with assms have w: "waiter (polls c ! p) < length (attempts c)"
      and h: "poll_hash (polls c ! p) \<noteq> None \<longrightarrow> txHash (attempts c ! waiter (polls c ! p)) \<noteq> None"
      unfolding polls_inv_def by blast+
    from poll_static_step [OF True, of env a]
    have s: "poll_hash (polls ?c' ! p) = poll_hash (polls c ! p)"
      "waiter (polls ?c' ! p) = waiter (polls c ! p)" by simp_all
    from w h show ?thesis unfolding s using le txHash_step_mono [OF w, of env a] by auto
  next
    case False
    from polls_step_cases [of env c a] p False obtain i e where
      i: "i < length (attempts c)" and at: "attempts ?c' = attempts c"
      and pl: "polls ?c' = polls c @ [pollTransaction (txHash (attempts c ! i)) i]"
      by auto
    from p False pl have "polls ?c' ! p = pollTransaction (txHash (attempts c ! i)) i"
      by (simp add: nth_append less_Suc_eq)
    then show ?thesis using i at by (simp add: pollTransaction_def)
  qed
qed

lemma polls_inv_run: "polls_inv c \<Longrightarrow> polls_inv (run env c sched)"
  by (induction sched arbitrary: c) (simp_all add: run_Nil run_Cons polls_inv_step)

lemma polls_inv_start: "polls_inv (start a)"
  by (simp add: polls_inv_def)

lemma on_poll_reply_null:
  "on_poll_reply p (Reply None) c
     = c\<lparr>polls := (polls c)[p := (polls c ! p)\<lparr>status := Sleeping 1000\<rparr>]\<rparr>"
  by (simp add: on_poll_reply_def tick_reply_def Let_def)

lemma on_poll_reply_receipt:
  "on_poll_reply p (Reply (Some r)) c
     = c\<lparr>polls := (polls c)[p := (polls c ! p)\<lparr>status := Finished r\<rparr>],
          attempts := (attempts c)[waiter (polls c ! p) :=
                        resolve (ReceiptValue r) (attempts c ! waiter (polls c ! p))]\<rparr>"
  by (simp add: on_poll_reply_def tick_reply_def Let_def)

lemma polls_step_Emit:
  "polls (step env c (Emit i ev)) = polls c
   \<or> (\<exists>x. polls (step env c (Emit i ev)) = polls c @ [pollTransaction x i])"
proof (cases "i < length (attempts c)")
  case False
  then show ?thesis by simp
next
  case True
  show ?thesis
  proof (cases ev)
    case (Error e)
    consider (t) "timeout_text e" | (r) "\<not> timeout_text e" "transient_text e"
      | (f) "\<not> timeout_text e" "\<not> transient_text e" by blast
    then show ?thesis
    proof cases
      case t
      with Error True have "polls (step env c (Emit i ev))
          = polls c @ [pollTransaction (txHash (attempts c ! i)) i]"
        by (simp add: on_error_timeout)
      then show ?thesis by blast
    next
      case r
      with Error True show ?thesis by (simp add: on_error_transient)
    next
      case f
      with Error True show ?thesis by (simp add: on_error_fatal)
    qed
  qed (simp_all add: True)
qed

lemma step_null_reply:
  assumes "p < length (polls c)" "status (polls c ! p) = Querying"
  shows "step env c (PollReply p (Reply None))
           = c\<lparr>polls := (polls c)[p := (polls c ! p)\<lparr>status := Sleeping 1000\<rparr>]\<rparr>"
  using assms by (simp add: on_poll_reply_def tick_reply_def Let_def)

lemma step_receipt_reply:
  assumes "p < length (polls c)" "status (polls c ! p) = Querying"
  shows "step env c (PollReply p (Reply (Some r)))
           = c\<lparr>polls := (polls c)[p := (polls c ! p)\<lparr>status := Finished r\<rparr>],
                attempts := (attempts c)[waiter (polls c ! p) :=
                              resolve (ReceiptValue r) (attempts c ! waiter (polls c ! p))]\<rparr>"
  using assms by (simp add: on_poll_reply_def tick_reply_def Let_def)

lemma null_round:
  assumes "p < length (polls c)" "status (polls c ! p) = Querying"
  shows "attempts (step env (step env c (PollReply p (Reply None))) (TimerFired p)) = attempts c"
    and "length (polls (step env (step env c (PollReply p (Reply None))) (TimerFired p))) = length (polls c)"
    and "status (polls (step env (step env c (PollReply p (Reply None))) (TimerFired p)) ! p) = Querying"
    and "queries (polls (step env (step env c (PollReply p (Reply None))) (TimerFired p)) ! p)
           = queries (polls c ! p) + 1"
    and "waiter (polls (step env (step env c (PollReply p (Reply None))) (TimerFired p)) ! p)
           = waiter (polls c ! p)"
  unfolding step_null_reply [OF assms] using assms(1) by (simp_all add: timer_fired_def)

lemma null_rounds_Suc:
  "null_rounds p (Suc n) = PollReply p (Reply None) # TimerFired p # null_rounds p n"
  by (simp add: null_rounds_def)

lemma run_null_rounds:
  "p < length (polls c) \<Longrightarrow> status (polls c ! p) = Querying \<Longrightarrow>
   attempts (run env c (null_rounds p n)) = attempts c
   \<and> p < length (polls (run env c (null_rounds p n)))
   \<and> status (polls (run env c (null_rounds p n)) ! p) = Querying
   \<and> queries (polls (run env c (null_rounds p n)) ! p) = queries (polls c ! p) + n
   \<and> waiter (polls (run env c (null_rounds p n)) ! p) = waiter (polls c ! p)"
proof (induction n arbitrary: c)
  case 0
  then show ?case by (simp add: null_rounds_def run_Nil)
next
  case (Suc n)
  let ?c2 = "step env (step env c (PollReply p (Reply None))) (TimerFired p)"
  note r = null_round [OF Suc.prems, of env]
  have "p < length (polls ?c2)" using r(2) Suc.prems(1) by simp
  from Suc.IH [OF this r(3)] r show ?case
    by (simp add: null_rounds_Suc run_Cons)
qed

lemma status_step_Finished:
  assumes "p < length (polls (step env c a))" "status (polls (step env c a) ! p) = Finished r"
  shows "(p < length (polls c) \<and> status (polls c ! p) = Finished r)
       \<or> (a = PollReply p (Reply (Some r)) \<and> p < length (polls c))"
proof (cases a)
  case (Emit i ev)
  from polls_step_Emit [of env c i ev] Emit consider
    (same) "polls (step env c a) = polls c"
  | (new) x where "polls (step env c a) = polls c @ [pollTransaction x i]"
    by auto
  then show ?thesis
  proof cases
    case same
    with assms show ?thesis by simp
  next
    case new
    with assms show ?thesis
      by (cases "p < length (polls c)") (simp_all add: nth_append pollTransaction_def less_Suc_eq)
  qed
next
  case (PollReply p' rep)
  show ?thesis
  proof (cases "p' < length (polls c) \<and> status (polls c ! p') = Querying")
    case False
    with PollReply have "step env c a = c" by auto
    with assms show ?thesis by simp
  next
    case True
    with PollReply have pl: "polls (step env c a) = (polls c)[p' := tick_reply rep (polls c ! p')]"
      by (simp add: polls_on_poll_reply)
    show ?thesis
    proof (cases "p' = p")
      case False
      with pl assms show ?thesis by simp
    next
      case same: True
      with pl assms True have "status (tick_reply rep (polls c ! p)) = Finished r" by simp
      then have "rep = Reply (Some r)"
        by (simp add: tick_reply_def split: rpc_reply.splits option.splits)
      with PollReply same True show ?thesis by simp
    qed
  qed
next
  case (TimerFired p')
  show ?thesis
  proof (cases "p' < length (polls c)")
    case False
    with TimerFired assms show ?thesis by simp
  next
    case True
    with TimerFired have pl: "polls (step env c a) = (polls c)[p' := timer_fired (polls c ! p')]"
      by simp
    show ?thesis
    proof (cases "p' = p")
      case False
      with pl assms show ?thesis by simp
    next
      case same: True
      with pl assms True have "status (timer_fired (polls c ! p)) = Finished r" by simp
      then have "status (polls c ! p) = Finished r"
        by (simp add: timer_fired_def split: poll_status.splits)
      with same True show ?thesis by simp
    qed
  qed
qed

lemma length_polls_run: "length (polls c) \<le> length (polls (run env c sched))"
proof (induction sched arbitrary: c)
  case Nil
  show ?case by (simp add: run_Nil)
next
  case (Cons a sched)
  have "length (polls c) \<le> length (polls (step env c a))" by (rule length_polls_step)
  also have "\<dots> \<le> length (polls (run env (step env c a) sched))" by (rule Cons.IH)
  finally show ?case by (simp add: run_Cons)
qed

lemma poll_hash_run:
  "p < length (polls c) \<Longrightarrow> poll_hash (polls (run env c sched) ! p) = poll_hash (polls c ! p)"
proof (induction sched arbitrary: c)
  case Nil
  show ?case by (simp add: run_Nil)
next
  case (Cons a sched)
  have "p < length (polls (step env c a))"
    using Cons.prems length_polls_step [of c env a] by simp
  from Cons.IH [OF this] poll_static_step [OF Cons.prems, of env a]
  show ?case by (simp add: run_Cons)
qed

lemma finished_needs_receipt:
  "p < length (polls (run env c sched)) \<Longrightarrow> status (polls (run env c sched) ! p) = Finished r \<Longrightarrow>
   (p < length (polls c) \<and> status (polls c ! p) = Finished r)
   \<or> PollReply p (Reply (Some r)) \<in> set sched"
proof (induction sched arbitrary: c)
  case Nil
  then show ?case by (simp add: run_Nil)
next
  case (Cons a sched)
  from Cons.IH [of "step env c a"] Cons.prems
  consider "p < length (polls (step env c a))" "status (polls (step env c a) ! p) = Finished r"
    | "PollReply p (Reply (Some r)) \<in> set sched"
    by (auto simp: run_Cons)
  then show ?case
  proof cases
    case 1
    from status_step_Finished [OF 1] show ?thesis by auto
  next
    case 2
    then show ?thesis by simp
  qed
qed

lemma finished_needs_hash:
  "rpc_sound env c sched \<Longrightarrow> p < length (polls (run env c sched)) \<Longrightarrow>
   status (polls (run env c sched) ! p) = Finished r \<Longrightarrow>
   (p < length (polls c) \<and> status (polls c ! p) = Finished r)
   \<or> poll_hash (polls (run env c sched) ! p) \<noteq> None"
proof (induction sched arbitrary: c)
  case Nil
  then show ?case by (simp add: run_Nil)
next
  case (Cons a sched)
  from Cons.prems(1) have sound: "\<not> answers_undefined c a" "rpc_sound env (step env c a) sched"
    by simp_all
  from Cons.IH [OF sound(2)] Cons.prems(2,3)
  consider "p < length (polls (step env c a))" "status (polls (step env c a) ! p) = Finished r"
    | "poll_hash (polls (run env (step env c a) sched) ! p) \<noteq> None"
    by (auto simp: run_Cons)
  then show ?case
  proof cases
    case 1
    from status_step_Finished [OF 1] consider
      "p < length (polls c)" "status (polls c ! p) = Finished r"
      | "a = PollReply p (Reply (Some r))" "p < length (polls c)" by blast
    then show ?thesis
    proof cases
      case 1
      then show ?thesis by simp
    next
      case 2
      with sound(1) have "poll_hash (polls c ! p) \<noteq> None" by simp
      with poll_hash_run [OF 2(2), of env "a # sched"] show ?thesis by simp
    qed
  next
    case 2
    then show ?thesis by (simp add: run_Cons)
  qed
qed

lemma untouched_call:
  assumes inv: "polls_inv c" and i: "i < length (attempts c)"
    and h: "txHash (attempts c ! i) = None"
    and ne: "\<not> emits_on i a" and na: "\<not> answers_undefined c a"
  shows "attempts (step env c a) ! i = attempts c ! i"
proof (cases a)
  case (Emit k ev)
  with ne have k: "k \<noteq> i" by simp
  show ?thesis
  proof (cases "k < length (attempts c)")
    case False
    with Emit show ?thesis by simp
  next
    case True
    show ?thesis
    proof (cases ev)
      case (Error e)
      consider (t) "timeout_text e" | (r) "\<not> timeout_text e" "transient_text e"
        | (f) "\<not> timeout_text e" "\<not> transient_text e" by blast
      then show ?thesis
        using Emit Error True k i
        by cases (simp_all add: on_error_timeout on_error_transient on_error_fatal nth_append)
    qed (simp_all add: Emit True k)
  qed
next
  case (PollReply p rep)
  show ?thesis
  proof (cases "p < length (polls c) \<and> status (polls c ! p) = Querying")
    case False
    with PollReply show ?thesis by auto
  next
    case True
    show ?thesis
    proof (cases rep)
      case (Failure x)
      with PollReply True show ?thesis by (simp add: on_poll_reply_def tick_reply_def Let_def)
    next
      case (Reply ro)
      show ?thesis
      proof (cases ro)
        case None
        with PollReply True Reply show ?thesis by (simp add: on_poll_reply_null)
      next
        case (Some r)
        with PollReply Reply na True have "poll_hash (polls c ! p) \<noteq> None" by simp
        with inv True have "txHash (attempts c ! waiter (polls c ! p)) \<noteq> None"
          unfolding polls_inv_def by blast
        with h have "waiter (polls c ! p) \<noteq> i" by auto
        with PollReply Reply Some True show ?thesis by (simp add: on_poll_reply_receipt)
      qed
    qed
  qed
next
  case (TimerFired p)
  then show ?thesis by simp
qed

lemma pending_stays:
  "polls_inv c \<Longrightarrow> i < length (attempts c) \<Longrightarrow> txHash (attempts c ! i) = None \<Longrightarrow>
   \<forall>a \<in> set post. \<not> emits_on i a \<Longrightarrow> rpc_sound env c post \<Longrightarrow>
   attempts (run env c post) ! i = attempts c ! i"
proof (induction post arbitrary: c)
  case Nil
  show ?case by (simp add: run_Nil)
next
  case (Cons a post)
  let ?c1 = "step env c a"
  from Cons.prems have a: "\<not> emits_on i a" "\<not> answers_undefined c a"
    and rest: "\<forall>a \<in> set post. \<not> emits_on i a" "rpc_sound env ?c1 post"
    by simp_all
  have same: "attempts ?c1 ! i = attempts c ! i"
    using Cons.prems(1,2,3) a by (rule untouched_call)
  have "polls_inv ?c1" using Cons.prems(1) by (rule polls_inv_step)
  moreover have "i < length (attempts ?c1)"
    using Cons.prems(2) length_attempts_step [of c env a] by simp
  moreover have "txHash (attempts ?c1 ! i) = None" using same Cons.prems(3) by simp
  ultimately have "attempts (run env ?c1 post) ! i = attempts ?c1 ! i"
    using rest by (rule Cons.IH)
  with same show ?case by (simp add: run_Cons)
qed

lemma txHash_run:
  "i < length (attempts c) \<Longrightarrow>
   txHash (attempts (run env c sched) ! i)
     = (case last_hash i sched of Some h \<Rightarrow> Some h | None \<Rightarrow> txHash (attempts c ! i))"
proof (induction sched arbitrary: c)
  case Nil
  show ?case by (simp add: run_Nil)
next
  case (Cons a sched)
  have "i < length (attempts (step env c a))"
    using Cons.prems length_attempts_step [of c env a] by simp
  from Cons.IH [OF this] txHash_step [OF Cons.prems, of env a]
  show ?case
    by (simp add: run_Cons split: option.splits action.splits event.splits)
qed

lemma digest_JString [simp]: "digest d (JString t) = Inr (sha256_hex t)"
  by (simp add: digest_def)

lemma digest_JUndefined [simp]: "digest d JUndefined = Inl TypeError"
  by (simp add: digest_def)

lemma unat_and_15: "unat ((w :: 32 word) AND 15) < 16"
proof -
  have "w AND 15 \<le> 15" by (rule word_and_le1)
  then have "unat (w AND 15) \<le> unat (15 :: 32 word)" by (simp only: word_le_nat_alt)
  then show ?thesis by simp
qed

lemma hex_digit_in: "d < 16 \<Longrightarrow> hex_digit d \<in> set ''0123456789abcdef''"
  unfolding hex_digit_def by (rule nth_mem) simp

lemma length_hex32 [simp]: "length (hex32 w) = 8"
  by (simp add: hex32_def)

lemma set_hex32: "set (hex32 w) \<subseteq> set ''0123456789abcdef''"
  unfolding hex32_def using hex_digit_in [OF unat_and_15] by auto

lemma length_hex_state: "length (hex_state s) = 64"
  by (simp add: hex_state_def split: prod.splits)

lemma set_hex_state: "set (hex_state s) \<subseteq> set ''0123456789abcdef''"
proof
  fix x assume "x \<in> set (hex_state s)"
  then obtain w where "x \<in> set (hex32 w)"
    by (auto simp: hex_state_def split: prod.splits)
  then show "x \<in> set ''0123456789abcdef''" using set_hex32 by blast
qed

lemma hash_resolve_receipt:
  "promise (resolve (ReceiptValue r) a) = Settled (Resolved (HashValue h)) \<Longrightarrow>
   promise a = Settled (Resolved (HashValue h))"
  by (simp add: resolve_def split: if_splits)

lemma hash_reject:
  "promise (reject e a) = Settled (Resolved (HashValue h)) \<Longrightarrow>
   promise a = Settled (Resolved (HashValue h))"
  by (simp add: reject_def split: if_splits)

lemma hash_resolve_with_call:
  "promise (resolve_with_call j a) = Settled (Resolved (HashValue h)) \<Longrightarrow>
   promise a = Settled (Resolved (HashValue h))"
  by (simp add: resolve_with_call_def split: if_splits)

lemma hash_on_transactionHash:
  "promise (on_transactionHash h' a) = Settled (Resolved (HashValue h)) \<Longrightarrow>
   promise a = Settled (Resolved (HashValue h)) \<or> immediate a"
  by (simp add: on_transactionHash_def resolve_def Let_def split: if_splits)

lemma hash_needs_immediate_step:
  assumes k: "k < length (attempts c)"
    and s: "promise (attempts (step env c a) ! k) = Settled (Resolved (HashValue h))"
  shows "promise (attempts c ! k) = Settled (Resolved (HashValue h)) \<or> immediate (attempts c ! k)"
proof (cases a)
  case (Emit i ev)
  show ?thesis
  proof (cases "i < length (attempts c)")
    case False
    with Emit s show ?thesis by simp
  next
    case True
    show ?thesis
    proof (cases "i = k")
      case False
      have "attempts (step env c a) ! k = attempts c ! k"
      proof (cases ev)
        case (Error e)
        consider (t) "timeout_text e" | (r) "\<not> timeout_text e" "transient_text e"
          | (f) "\<not> timeout_text e" "\<not> transient_text e" by blast
        then show ?thesis
          using Emit Error True False k
          by cases (simp_all add: on_error_timeout on_error_transient on_error_fatal nth_append)
      qed (simp_all add: Emit True False)
      with s show ?thesis by simp
    next
      case same: True
      show ?thesis
      proof (cases ev)
        case (TransactionHash h')
        with Emit True same k s
        have "promise (on_transactionHash h' (attempts c ! k)) = Settled (Resolved (HashValue h))"
          by simp
        then show ?thesis by (rule hash_on_transactionHash)
      next
        case (Receipt r)
        with Emit True same k s
        have "promise (resolve (ReceiptValue r) (attempts c ! k)) = Settled (Resolved (HashValue h))"
          by (simp add: on_receipt_def)
        then show ?thesis using hash_resolve_receipt by blast
      next
        case (Error e)
        consider (t) "timeout_text e" | (r) "\<not> timeout_text e" "transient_text e"
          | (f) "\<not> timeout_text e" "\<not> transient_text e" by blast
        then show ?thesis
        proof cases
          case t
          with Emit Error True s show ?thesis by (simp add: on_error_timeout)
        next
          case r
          with Emit Error True same k s
          have "promise (resolve_with_call (length (attempts c)) (attempts c ! k))
              = Settled (Resolved (HashValue h))"
            by (simp add: on_error_transient nth_append)
          then show ?thesis using hash_resolve_with_call by blast
        next
          case f
          with Emit Error True same k s
          have "promise (reject e (attempts c ! k)) = Settled (Resolved (HashValue h))"
            by (simp add: on_error_fatal)
          then show ?thesis using hash_reject by blast
        qed
      qed
    qed
  qed
next
  case (PollReply p rep)
  show ?thesis
  proof (cases "p < length (polls c) \<and> status (polls c ! p) = Querying")
    case False
    with PollReply s show ?thesis by auto
  next
    case True
    show ?thesis
    proof (cases rep)
      case (Failure x)
      with PollReply True s show ?thesis
        by (simp add: on_poll_reply_def tick_reply_def Let_def)
    next
      case (Reply ro)
      show ?thesis
      proof (cases ro)
        case None
        with PollReply True Reply s show ?thesis by (simp add: on_poll_reply_null)
      next
        case (Some r)
        with PollReply True Reply s k
        have u: "promise ((attempts c)[waiter (polls c ! p) :=
                    resolve (ReceiptValue r) (attempts c ! waiter (polls c ! p))] ! k)
                 = Settled (Resolved (HashValue h))"
          by (simp add: on_poll_reply_receipt)
        show ?thesis
        proof (cases "waiter (polls c ! p) = k")
          case True
          with u k have "promise (resolve (ReceiptValue r) (attempts c ! k))
              = Settled (Resolved (HashValue h))" by simp
          then show ?thesis using hash_resolve_receipt by blast
        next
          case False
          with u show ?thesis by simp
        qed
      qed
    qed
  qed
next
  case (TimerFired p)
  then have "attempts (step env c a) = attempts c" by simp
  with s show ?thesis by simp
qed

lemma hash_inv_step:
  assumes "hash_inv (attempts c)"
  shows "hash_inv (attempts (step env c a))"
  unfolding hash_inv_def
proof (intro allI impI)
  let ?as = "attempts c" and ?as' = "attempts (step env c a)"
  fix k h
  assume k: "k < length ?as'" and s: "promise (?as' ! k) = Settled (Resolved (HashValue h))"
  show "immediate (?as' ! k)"
  proof (cases "k < length ?as")
    case True
    from hash_needs_immediate_step [OF True s] assms True
    have "immediate (?as ! k)" unfolding hash_inv_def by blast
    then show ?thesis using static_fields [OF static_step [OF True, of env a]] by simp
  next
    case False
    then have "length ?as \<le> k" by simp
    from new_call_shape [OF this k] obtain i where "?as' ! k = retry_of env (?as ! i)" by blast
    with s show ?thesis by (simp add: retry_of_def)
  qed
qed

lemma hash_inv_run: "hash_inv (attempts c) \<Longrightarrow> hash_inv (attempts (run env c sched))"
  by (induction sched arbitrary: c) (simp_all add: run_Nil run_Cons hash_inv_step)

lemma follow_Some: "follow f as i = Some s \<Longrightarrow> \<exists>k < length as. promise (as ! k) = Settled s"
proof (induction f arbitrary: i)
  case 0
  then show ?case by simp
next
  case (Suc f)
  show ?case
  proof (cases "i < length as")
    case False
    with Suc.prems show ?thesis by simp
  next
    case True
    show ?thesis
    proof (cases "promise (as ! i)")
      case Pending
      with Suc.prems True show ?thesis by simp
    next
      case (Settled s')
      with Suc.prems True show ?thesis by auto
    next
      case (Follows j)
      with Suc.prems True have "follow f as j = Some s" by simp
      then show ?thesis by (rule Suc.IH)
    qed
  qed
qed

lemma late_request_resolves_with_receipt:
  assumes "submit env m ps False sched = Some (Resolved v)"
  shows "\<exists>r. v = ReceiptValue r"
proof (cases "sendTransaction env m ps None False")
  case (Inl err)
  with assms show ?thesis by (simp add: submit_def)
next
  case (Inr a0)
  let ?as = "attempts (run env (start a0) sched)"
  from assms Inr have "follow (length ?as) ?as 0 = Some (Resolved v)"
    by (simp add: submit_def outcome_def)
  from follow_Some [OF this] obtain k where k: "k < length ?as"
    and p: "promise (?as ! k) = Settled (Resolved v)" by blast
  have "promise a0 = Pending" using sendTransaction_shape [OF Inr] by simp
  then have "hash_inv (attempts (start a0))" by (simp add: hash_inv_def)
  then have inv: "hash_inv ?as" by (rule hash_inv_run)
  have ni: "\<not> immediate (?as ! k)" using reachable_call(3) [OF Inr k] by simp
  show ?thesis
  proof (cases v)
    case (HashValue h)
    with inv k p ni show ?thesis unfolding hash_inv_def by blast
  next
    case (ReceiptValue r)
    then show ?thesis by blast
  qed
qed

section \<open>Claim C1\<close>






text \<open>
  The handlers of a call stay registered after its error event. Were the transport to emit
  a second error on a call that has already been retried, the nonce of the later retry
  would be used twice; this is why the theorem above speaks of the attempts that decide
  the request, whose nonces are consecutive in every run.
\<close>

lemma second_error_event_reuses_nonce:
  "map nonce (attempts (run example_env (start (example_call ''notarize'' True))
       [Emit 0 (Error ''replacement transaction underpriced''),
        Emit 1 (Error ''replacement transaction underpriced''),
        Emit 0 (Error ''replacement transaction underpriced'')])) = [7, 8, 9, 8]"
proof -
  let ?a0 = "example_call ''notarize'' True"
  let ?e = "''replacement transaction underpriced''"
  have n: "nonce (resolve_with_call j a) = nonce a" "nonce (retry_of example_env a) = nonce a + 1" for j a
    by (simp_all add: resolve_with_call_def retry_of_def)
  have s1: "step example_env (start ?a0) (Emit 0 (Error ?e))
      = \<lparr> attempts = [resolve_with_call 1 ?a0, retry_of example_env ?a0], polls = [] \<rparr>"
    using underpriced_text by (simp add: on_error_transient start_def)
  let ?b0 = "resolve_with_call 1 ?a0" and ?b1 = "retry_of example_env ?a0"
  have s2: "step example_env \<lparr> attempts = [?b0, ?b1], polls = [] \<rparr> (Emit 1 (Error ?e))
      = \<lparr> attempts = [?b0, resolve_with_call 2 ?b1, retry_of example_env ?b1], polls = [] \<rparr>"
    using underpriced_text by (simp add: on_error_transient numeral_2_eq_2)
  let ?c1 = "resolve_with_call 2 ?b1" and ?c2 = "retry_of example_env ?b1"
  have s3: "step example_env \<lparr> attempts = [?b0, ?c1, ?c2], polls = [] \<rparr> (Emit 0 (Error ?e))
      = \<lparr> attempts = [resolve_with_call 3 ?b0, ?c1, ?c2, retry_of example_env ?b0], polls = [] \<rparr>"
    using underpriced_text by (simp add: on_error_transient numeral_3_eq_3)
  have "run example_env (start ?a0) [Emit 0 (Error ?e), Emit 1 (Error ?e), Emit 0 (Error ?e)]
      = \<lparr> attempts = [resolve_with_call 3 ?b0, ?c1, ?c2, retry_of example_env ?b0], polls = [] \<rparr>"
    by (simp only: run_Cons run_Nil s1 s2 s3)
  then show ?thesis by (simp add: n example_call_def)
qed

section \<open>Claim C2\<close>

text \<open>
  C2 (amended). Fatal-error propagation. An error whose text contains none of the three
  patterns makes the handler reject the promise of its call with exactly that text, and
  submit nothing: the transactions submitted so far stay what they were, no poll is
  started, and nothing is submitted later either unless the transport emits a transient
  error again. A request that was pending at that moment fails with that text, for good.
  In particular a fresh request whose first transport event is such an error fails with
  it, whatever follows.
\<close>

theorem fatal_error_fails_request:
  assumes i: "i < length (attempts c)"
    and nt: "\<not> indexOf e ''within 50 blocks'' > - 1"
    and ntr: "\<not> (indexOf e ''known transaction'' > - 1 \<or> indexOf e ''underpriced'' > - 1)"
    and c': "c' = step env c (Emit i (Error e))"
  shows "c' = c\<lparr>attempts := (attempts c)[i := reject e (attempts c ! i)]\<rparr>
       \<and> map sent (attempts c') = map sent (attempts c) \<and> polls c' = polls c
       \<and> (\<forall>post. (\<forall>a \<in> set post. \<not> spawning a) \<longrightarrow>
             map sent (attempts (run env c' post)) = map sent (attempts c))
       \<and> (promise (attempts c ! i) = Pending \<longrightarrow>
             (\<forall>post. promise (attempts (run env c' post) ! i) = Settled (Rejected e)
                   \<and> outcome (run env c' post) i = Some (Rejected e)))
       \<and> (\<forall>m ps imm a0 post. sendTransaction env m ps None imm = Inr a0 \<longrightarrow>
             submit env m ps imm (Emit 0 (Error e) # post) = Some (Rejected e))"
proof -
  have t: "\<not> transient_text e" "\<not> timeout_text e"
    using nt ntr by (simp_all add: transient_text_def timeout_text_def)
  have shape: "c' = c\<lparr>attempts := (attempts c)[i := reject e (attempts c ! i)]\<rparr>"
    using i t by (simp add: c' on_error_fatal)
  have ns: "\<not> spawning (Emit i (Error e))" using t by simp
  have sent: "map sent (attempts c') = map sent (attempts c)"
    unfolding c' using ns by (rule sent_step_not_spawning)
  have polls: "polls c' = polls c" by (simp add: shape)
  have later: "map sent (attempts (run env c' post)) = map sent (attempts c)"
    if "\<forall>a \<in> set post. \<not> spawning a" for post
    using sent_run_not_spawning [OF that, of env c'] sent by simp
  have rejected: "promise (attempts (run env c' post) ! i) = Settled (Rejected e)
        \<and> outcome (run env c' post) i = Some (Rejected e)"
    if p: "promise (attempts c ! i) = Pending" for post
  proof -
    have l: "i < length (attempts c')" using i by (simp add: shape)
    have s: "promise (attempts c' ! i) = Settled (Rejected e)"
      using i p by (simp add: shape promise_reject_Pending)
    from l s have "promise (attempts (run env c' post) ! i) = Settled (Rejected e)"
      by (simp add: promise_run)
    moreover from l s have "outcome (run env c' post) i = Some (Rejected e)"
      by (rule outcome_run_Settled)
    ultimately show ?thesis by simp
  qed
  have scenario: "submit env m ps imm (Emit 0 (Error e) # post) = Some (Rejected e)"
    if f: "sendTransaction env m ps None imm = Inr a0" for m ps imm a0 post
  proof -
    let ?c1 = "step env (start a0) (Emit 0 (Error e))"
    have p0: "promise a0 = Pending" using sendTransaction_shape [OF f] by simp
    have "?c1 = (start a0)\<lparr>attempts := [reject e a0]\<rparr>"
      using t by (simp add: on_error_fatal)
    with p0 have "0 < length (attempts ?c1)" "promise (attempts ?c1 ! 0) = Settled (Rejected e)"
      by (simp_all add: promise_reject_Pending)
    then have "outcome (run env ?c1 post) 0 = Some (Rejected e)"
      by (rule outcome_run_Settled)
    then show ?thesis by (simp add: submit_fresh [OF f] run_Cons)
  qed
  from shape sent polls later rejected scenario show ?thesis by blast
qed

theorem fatal_error_fails_request_witness:
  "notarize example_env (JString ''hello'') [Emit 0 (Error ''insufficient funds'')]
     = Responded \<lparr> status_code = 500, body = BodyError ''insufficient funds'' \<rparr>
   \<and> length (attempts (step example_env (start (example_call ''notarize'' True))
                 (Emit 0 (Error ''insufficient funds'')))) = 1"
proof -
  let ?a0 = "example_call ''notarize'' True"
  let ?e = "''insufficient funds''"
  let ?c' = "step example_env (start ?a0) (Emit 0 (Error ?e))"
  have i: "0 < length (attempts (start ?a0))" by simp
  have nt: "\<not> indexOf ?e ''within 50 blocks'' > - 1"
    using fatal_text(2) unfolding timeout_text_def .
  have ntr: "\<not> (indexOf ?e ''known transaction'' > - 1 \<or> indexOf ?e ''underpriced'' > - 1)"
    using fatal_text(1) unfolding transient_text_def .
  note inst = fatal_error_fails_request [OF i nt ntr refl, of example_env]
  have fresh: "sendTransaction example_env ''notarize'' [sha256_hex ''hello''] None True
      = Inr \<lparr> methodName = ''notarize'', params = [sha256_hex ''hello''], immediate = True, nonce = 7,
              sent = build_tx example_env ''notarize'' [sha256_hex ''hello''] 7,
              txHash = None, promise = Pending \<rparr>"
    by (simp add: sendTransaction_def compute_nonce_def example_env_def)
  from inst fresh have "submit example_env ''notarize'' [sha256_hex ''hello''] True [Emit 0 (Error ?e)]
      = Some (Rejected ?e)" by blast
  then have n: "notarize example_env (JString ''hello'') [Emit 0 (Error ?e)]
     = Responded \<lparr> status_code = 500, body = BodyError ?e \<rparr>"
    by (simp add: notarize_def digest_def)
  from inst have "map sent (attempts ?c') = map sent (attempts (start ?a0))" by blast
  then have "length (map sent (attempts ?c')) = length (map sent (attempts (start ?a0)))" by simp
  then have "length (attempts ?c') = 1" by simp
  with n show ?thesis by simp
qed

text \<open>
  C2 as stated fails for a request that was resolved early: Store has answered with the
  hash, and the fatal error that arrives afterwards changes nothing and reaches no one.
\<close>

theorem fatal_error_after_early_resolution_is_dropped:
  "notarize example_env (JString ''hello'')
     [Emit 0 (TransactionHash ''0xh1''), Emit 0 (Error ''insufficient funds'')]
     = Responded \<lparr> status_code = 200, body = BodyResolution (HashValue ''0xh1'') \<rparr>"
proof -
  let ?a0 = "\<lparr> methodName = ''notarize'', params = [sha256_hex ''hello''], immediate = True, nonce = 7,
              sent = build_tx example_env ''notarize'' [sha256_hex ''hello''] 7,
              txHash = None, promise = Pending \<rparr>"
  have fresh: "sendTransaction example_env ''notarize'' [sha256_hex ''hello''] None True = Inr ?a0"
    by (simp add: sendTransaction_def compute_nonce_def example_env_def)
  have s1: "step example_env (start ?a0) (Emit 0 (TransactionHash ''0xh1''))
      = \<lparr> attempts = [?a0\<lparr>txHash := Some ''0xh1'',
                                promise := Settled (Resolved (HashValue ''0xh1''))\<rparr>], polls = [] \<rparr>"
    by (simp add: start_def on_transactionHash_def resolve_def Let_def)
  have "outcome (run example_env (start ?a0)
      [Emit 0 (TransactionHash ''0xh1''), Emit 0 (Error ''insufficient funds'')]) 0
      = Some (Resolved (HashValue ''0xh1''))"
    unfolding run_Cons run_Nil s1 using fatal_text
    by (simp add: on_error_fatal reject_def outcome_def)
  then show ?thesis by (simp add: notarize_def submit_fresh [OF fresh])
qed

text \<open>
  Nothing in the engine ends a logical request after a fatal error: were the transport to
  emit a retryable error on the same call afterwards, the engine would submit again,
  while the request stays rejected with the first error.
\<close>

lemma later_transient_error_submits_again:
  "map nonce (attempts (run example_env (start (example_call ''notarize'' True))
       [Emit 0 (Error ''insufficient funds''),
        Emit 0 (Error ''replacement transaction underpriced'')])) = [7, 8]
   \<and> submit example_env ''notarize'' [''ab''] True
       [Emit 0 (Error ''insufficient funds''),
        Emit 0 (Error ''replacement transaction underpriced'')] = Some (Rejected ''insufficient funds'')"
proof -
  let ?a0 = "example_call ''notarize'' True"
  let ?e = "''replacement transaction underpriced''"
  have fresh: "sendTransaction example_env ''notarize'' [''ab''] None True = Inr ?a0"
    by (rule example_sendTransaction) simp
  have n: "nonce (resolve_with_call j a) = nonce a" "nonce (retry_of example_env a) = nonce a + 1"
    "nonce (reject x a) = nonce a" for j a x
    by (simp_all add: resolve_with_call_def retry_of_def reject_def)
  have s1: "step example_env (start ?a0) (Emit 0 (Error ''insufficient funds''))
      = \<lparr> attempts = [reject ''insufficient funds'' ?a0], polls = [] \<rparr>"
    using fatal_text by (simp add: on_error_fatal start_def)
  let ?b0 = "reject ''insufficient funds'' ?a0"
  have s2: "step example_env \<lparr> attempts = [?b0], polls = [] \<rparr> (Emit 0 (Error ?e))
      = \<lparr> attempts = [resolve_with_call 1 ?b0, retry_of example_env ?b0], polls = [] \<rparr>"
    using underpriced_text by (simp add: on_error_transient)
  have r: "run example_env (start ?a0) [Emit 0 (Error ''insufficient funds''), Emit 0 (Error ?e)]
      = \<lparr> attempts = [resolve_with_call 1 ?b0, retry_of example_env ?b0], polls = [] \<rparr>"
    by (simp only: run_Cons run_Nil s1 s2)
  have p: "promise (resolve_with_call 1 ?b0) = Settled (Rejected ''insufficient funds'')"
    by (simp add: resolve_with_call_def reject_def example_call_def)
  show ?thesis
    unfolding submit_fresh [OF fresh] r
    by (simp add: n outcome_def resolve_with_call_def reject_def example_call_def)
qed

section \<open>Claim C3\<close>

text \<open>
  C3 (amended). Early resolution. On a call made with the early flag, the hash-assigned
  event stores the hash and, when the promise of the call is still pending, resolves it at
  once with just the hash: no receipt event is needed, and nothing that follows changes
  the result. When the promise was settled before (the receipt event came first, say),
  that earlier result stands. Store calls the engine with the early flag set and answers
  with the engine's result: with the hash, when the hash-assigned event arrives while the
  caller's call is pending.
\<close>

theorem early_resolution_on_hash:
  assumes i: "i < length (attempts c)"
    and imm: "immediate (attempts c ! i)"
    and c': "c' = step env c (Emit i (TransactionHash h))"
  shows "txHash (attempts c' ! i) = Some h
       \<and> (promise (attempts c ! i) = Pending \<longrightarrow>
            (\<forall>post. outcome (run env c' post) i = Some (Resolved (HashValue h))))
       \<and> (\<forall>s. promise (attempts c ! i) = Settled s \<longrightarrow>
            (\<forall>post. outcome (run env c' post) i = Some s))
       \<and> (\<forall>t a0 pre post.
            sendTransaction env ''notarize'' [sha256_hex t] None True = Inr a0 \<and>
            promise (attempts (run env (start a0) pre) ! 0) = Pending \<longrightarrow>
            notarize env (JString t) (pre @ Emit 0 (TransactionHash h) # post)
              = Responded \<lparr> status_code = 200, body = BodyResolution (HashValue h) \<rparr>)"
proof -
  have hash_event: "txHash (attempts c1 ! k) = Some h
      \<and> (promise (attempts c0 ! k) = Pending \<longrightarrow>
            (\<forall>post. outcome (run env c1 post) k = Some (Resolved (HashValue h))))
      \<and> (\<forall>s. promise (attempts c0 ! k) = Settled s \<longrightarrow>
            (\<forall>post. outcome (run env c1 post) k = Some s))"
    if k: "k < length (attempts c0)" and im: "immediate (attempts c0 ! k)"
      and c1: "c1 = step env c0 (Emit k (TransactionHash h))" for c0 c1 k
  proof -
    have shape: "c1 = c0\<lparr>attempts := (attempts c0)[k := on_transactionHash h (attempts c0 ! k)]\<rparr>"
      using k by (simp add: c1)
    have l: "k < length (attempts c1)" using k by (simp add: shape)
    have a: "attempts c1 ! k = resolve (HashValue h) ((attempts c0 ! k)\<lparr>txHash := Some h\<rparr>)"
      using k im by (simp add: shape on_transactionHash_def Let_def)
    have tx: "txHash (attempts c1 ! k) = Some h" by (simp add: a resolve_def)
    have pend: "outcome (run env c1 post) k = Some (Resolved (HashValue h))"
      if "promise (attempts c0 ! k) = Pending" for post
    proof -
      from that have "promise (attempts c1 ! k) = Settled (Resolved (HashValue h))"
        by (simp add: a resolve_def)
      with l show ?thesis by (rule outcome_run_Settled)
    qed
    have settled: "outcome (run env c1 post) k = Some s"
      if "promise (attempts c0 ! k) = Settled s" for s post
    proof -
      from that have "promise (attempts c1 ! k) = Settled s"
        by (simp add: a resolve_def)
      with l show ?thesis by (rule outcome_run_Settled)
    qed
    from tx pend settled show ?thesis by blast
  qed
  have store: "notarize env (JString t) (pre @ Emit 0 (TransactionHash h) # post)
      = Responded \<lparr> status_code = 200, body = BodyResolution (HashValue h) \<rparr>"
    if f: "sendTransaction env ''notarize'' [sha256_hex t] None True = Inr a0"
      and pend: "promise (attempts (run env (start a0) pre) ! 0) = Pending" for t a0 pre post
  proof -
    let ?c0 = "run env (start a0) pre"
    have k: "0 < length (attempts ?c0)" by (rule reachable_invs(3) [OF f])
    have im: "immediate (attempts ?c0 ! 0)" using reachable_call(3) [OF f k] by simp
    from hash_event [OF k im refl] pend
    have "outcome (run env (step env ?c0 (Emit 0 (TransactionHash h))) post) 0
        = Some (Resolved (HashValue h))" by blast
    then have "submit env ''notarize'' [sha256_hex t] True (pre @ Emit 0 (TransactionHash h) # post)
        = Some (Resolved (HashValue h))"
      by (simp add: submit_fresh [OF f] run_append run_Cons)
    then show ?thesis by (simp add: notarize_def)
  qed
  from hash_event [OF i imm c'] store show ?thesis by blast
qed

theorem early_resolution_on_hash_witness:
  "notarize example_env (JString ''hello'') [Emit 0 (TransactionHash ''0xh1'')]
     = Responded \<lparr> status_code = 200, body = BodyResolution (HashValue ''0xh1'') \<rparr>"
proof -
  let ?a0 = "\<lparr> methodName = ''notarize'', params = [sha256_hex ''hello''], immediate = True, nonce = 7,
              sent = build_tx example_env ''notarize'' [sha256_hex ''hello''] 7,
              txHash = None, promise = Pending \<rparr>"
  have fresh: "sendTransaction example_env ''notarize'' [sha256_hex ''hello''] None True = Inr ?a0"
    by (simp add: sendTransaction_def compute_nonce_def example_env_def)
  have i: "0 < length (attempts (start ?a0))" by simp
  have imm: "immediate (attempts (start ?a0) ! 0)" by simp
  have pend: "promise (attempts (run example_env (start ?a0) []) ! 0) = Pending"
    by (simp add: run_Nil)
  note inst = early_resolution_on_hash [OF i imm refl, of example_env "''0xh1''"]
  from inst fresh pend
  have "notarize example_env (JString ''hello'') ([] @ Emit 0 (TransactionHash ''0xh1'') # [])
     = Responded \<lparr> status_code = 200, body = BodyResolution (HashValue ''0xh1'') \<rparr>"
    by blast
  then show ?thesis by simp
qed

text \<open>
  C3 as stated fails when the two events arrive out of order: after the receipt event, the
  hash-assigned event changes nothing, and Store answers with the receipt.
\<close>

theorem receipt_before_hash_resolves_with_receipt:
  "notarize example_env (JString ''hello'')
     [Emit 0 (Receipt example_receipt), Emit 0 (TransactionHash ''0xh1'')]
     = Responded \<lparr> status_code = 200, body = BodyResolution (ReceiptValue example_receipt) \<rparr>"
proof -
  let ?a0 = "\<lparr> methodName = ''notarize'', params = [sha256_hex ''hello''], immediate = True, nonce = 7,
              sent = build_tx example_env ''notarize'' [sha256_hex ''hello''] 7,
              txHash = None, promise = Pending \<rparr>"
  have fresh: "sendTransaction example_env ''notarize'' [sha256_hex ''hello''] None True = Inr ?a0"
    by (simp add: sendTransaction_def compute_nonce_def example_env_def)
  have "outcome (run example_env (start ?a0)
      [Emit 0 (Receipt example_receipt), Emit 0 (TransactionHash ''0xh1'')]) 0
      = Some (Resolved (ReceiptValue example_receipt))"
    by (simp add: run_def start_def on_receipt_def on_transactionHash_def resolve_def
        outcome_def Let_def)
  then show ?thesis by (simp add: notarize_def submit_fresh [OF fresh])
qed

section \<open>Claim C4\<close>

text \<open>
  C4 (amended). Frame condition across retries. In every call made for a logical request,
  the payload has the encoded call data and the recipient of the first call, the gas
  limit 400000 and the gas price 20000000000 (in hex), and the hex form of the nonce of
  that call: only the nonce differs between them. The data is the deployment encoding
  exactly when the operation is not a method of the contract. The recipient is the
  address the contract object was constructed with, whatever the operation: it is absent
  exactly when that address is null or empty.
\<close>

theorem payload_frame_across_retries:
  assumes fresh: "sendTransaction env m ps None imm = Inr a0"
    and k: "k < length (attempts (run env (start a0) sched))"
  shows "sent (attempts (run env (start a0) sched) ! k)
           = \<lparr> tx_data = tx_data (sent a0), tx_gasLimit = ''0x61a80'',
               tx_gasPrice = ''0x4a817c800'',
               tx_nonce = toHex (nonce (attempts (run env (start a0) sched) ! k)),
               tx_to = tx_to (sent a0) \<rparr>
       \<and> toHex 400000 = ''0x61a80'' \<and> toHex 20000000000 = ''0x4a817c800''
       \<and> tx_data (sent a0)
           = (if m \<in> set (methods env) then encodeABI_method env m ps
              else encodeABI_deploy env (case ps of [] \<Rightarrow> None | p # ps' \<Rightarrow> Some p))
       \<and> (tx_to (sent a0) = None \<longleftrightarrow> options_address env = None \<or> options_address env = Some [])
       \<and> (\<forall>a. options_address env = Some a \<and> a \<noteq> [] \<longrightarrow> tx_to (sent a0) = Some a)"
proof -
  let ?as = "attempts (run env (start a0) sched)"
  have s0: "sent a0 = build_tx env m ps (nonce a0)"
    using sendTransaction_shape [OF fresh] by simp
  have sk: "sent (?as ! k) = build_tx env m ps (nonce (?as ! k))"
    by (rule reachable_call(4) [OF fresh k])
  have 1: "sent (?as ! k) = \<lparr> tx_data = tx_data (sent a0), tx_gasLimit = ''0x61a80'',
               tx_gasPrice = ''0x4a817c800'', tx_nonce = toHex (nonce (?as ! k)),
               tx_to = tx_to (sent a0) \<rparr>"
    unfolding sk s0 by (simp add: build_tx_def toHex_gasLimit toHex_gasPrice Let_def)
  have 2: "tx_data (sent a0)
           = (if m \<in> set (methods env) then encodeABI_method env m ps
              else encodeABI_deploy env (case ps of [] \<Rightarrow> None | p # ps' \<Rightarrow> Some p))"
    unfolding s0 by (simp add: build_tx_def Let_def)
  have 3: "tx_to (sent a0) = None \<longleftrightarrow> options_address env = None \<or> options_address env = Some []"
    unfolding s0 by (simp add: build_tx_def Let_def split: option.splits)
  have 4: "tx_to (sent a0) = Some a" if "options_address env = Some a \<and> a \<noteq> []" for a
    unfolding s0 using that by (simp add: build_tx_def Let_def)
  from 1 2 3 4 toHex_gasLimit toHex_gasPrice show ?thesis by blast
qed

theorem payload_frame_across_retries_witness:
  "map sent (attempts (run example_env (start (example_call ''notarize'' True))
                [Emit 0 (Error ''replacement transaction underpriced'')]))
     = [\<lparr> tx_data = ''notarizeab'', tx_gasLimit = ''0x61a80'', tx_gasPrice = ''0x4a817c800'',
          tx_nonce = ''0x7'', tx_to = Some ''0x58df3b0e'' \<rparr>,
        \<lparr> tx_data = ''notarizeab'', tx_gasLimit = ''0x61a80'', tx_gasPrice = ''0x4a817c800'',
          tx_nonce = ''0x8'', tx_to = Some ''0x58df3b0e'' \<rparr>]"
proof -
  let ?a0 = "example_call ''notarize'' True"
  let ?sched = "[Emit 0 (Error ''replacement transaction underpriced'')]"
  let ?as = "attempts (run example_env (start ?a0) ?sched)"
  have fresh: "sendTransaction example_env ''notarize'' [''ab''] None True = Inr ?a0"
    by (rule example_sendTransaction) simp
  have r: "run example_env (start ?a0) ?sched
      = (start ?a0)\<lparr>attempts := [resolve_with_call 1 ?a0, retry_of example_env ?a0]\<rparr>"
    using underpriced_text by (simp add: run_Cons run_Nil on_error_transient)
  have l: "length ?as = 2" "nonce (?as ! 0) = 7" "nonce (?as ! 1) = 8"
    unfolding r by (simp_all add: resolve_with_call_def retry_of_def example_call_def)
  have k0: "0 < length ?as" and k1: "1 < length ?as" using l(1) by simp_all
  have h8: "toHex 8 = ''0x8''" by (simp add: toHex_def hex_of_nat.simps hex_digit_def)
  have e: "tx_data (sent ?a0) = ''notarizeab''" "tx_to (sent ?a0) = Some ''0x58df3b0e''"
    by (simp_all add: example_call_def)
  from payload_frame_across_retries [OF fresh k0]
  have f0: "sent (?as ! 0) = \<lparr> tx_data = tx_data (sent ?a0), tx_gasLimit = ''0x61a80'',
      tx_gasPrice = ''0x4a817c800'', tx_nonce = toHex (nonce (?as ! 0)), tx_to = tx_to (sent ?a0) \<rparr>"
    by (rule conjunct1)
  have s0: "sent (?as ! 0) = \<lparr> tx_data = ''notarizeab'', tx_gasLimit = ''0x61a80'',
      tx_gasPrice = ''0x4a817c800'', tx_nonce = ''0x7'', tx_to = Some ''0x58df3b0e'' \<rparr>"
    by (simp only: f0 l(2) e toHex_7)
  from payload_frame_across_retries [OF fresh k1]
  have f1: "sent (?as ! 1) = \<lparr> tx_data = tx_data (sent ?a0), tx_gasLimit = ''0x61a80'',
      tx_gasPrice = ''0x4a817c800'', tx_nonce = toHex (nonce (?as ! 1)), tx_to = tx_to (sent ?a0) \<rparr>"
    by (rule conjunct1)
  have s1: "sent (?as ! 1) = \<lparr> tx_data = ''notarizeab'', tx_gasLimit = ''0x61a80'',
      tx_gasPrice = ''0x4a817c800'', tx_nonce = ''0x8'', tx_to = Some ''0x58df3b0e'' \<rparr>"
    by (simp only: f1 l(3) e h8)
  have "map sent ?as = [sent (?as ! 0), sent (?as ! 1)]"
    using l(1) by (intro nth_equalityI) (auto simp: less_Suc_eq numeral_2_eq_2)
  with s0 s1 show ?thesis by simp
qed

text \<open>
  C4 as stated fails in its last clause: with a contract address configured, the payload
  of the operation \<^verbatim>\<open>'deploy'\<close> has that address as its recipient, and with none
  configured the payload of \<^verbatim>\<open>'notarize'\<close>, which is not a deployment, has no recipient.
\<close>

theorem recipient_follows_configuration_not_operation:
  "''deploy'' \<notin> set (methods example_env)
   \<and> sendTransaction example_env ''deploy'' [''0x6080''] None False
       = Inr \<lparr> methodName = ''deploy'', params = [''0x6080''], immediate = False, nonce = 7,
               sent = \<lparr> tx_data = ''0x6080'', tx_gasLimit = ''0x61a80'',
                        tx_gasPrice = ''0x4a817c800'', tx_nonce = ''0x7'',
                        tx_to = Some ''0x58df3b0e'' \<rparr>,
               txHash = None, promise = Pending \<rparr>
   \<and> ''notarize'' \<in> set (methods (example_env\<lparr>options_address := None\<rparr>))
   \<and> sendTransaction (example_env\<lparr>options_address := None\<rparr>) ''notarize'' [''ab''] None True
       = Inr \<lparr> methodName = ''notarize'', params = [''ab''], immediate = True, nonce = 7,
               sent = \<lparr> tx_data = ''notarizeab'', tx_gasLimit = ''0x61a80'',
                        tx_gasPrice = ''0x4a817c800'', tx_nonce = ''0x7'', tx_to = None \<rparr>,
               txHash = None, promise = Pending \<rparr>"
  by (simp add: sendTransaction_def compute_nonce_def example_env_def build_tx_def
      toHex_gasLimit toHex_gasPrice toHex_7)

section \<open>Claim C5\<close>

text \<open>
  C5 (amended). Polling fallback. When an error whose text contains the timeout pattern arrives on a
  call, the engine starts a poll for the hash that call holds. The poll asks the RPC for
  the receipt; after each null reply it sleeps 1000 ms and asks again, any number of
  times: after \<open>n\<close> null replies it is asking for the \<open>n + 1\<close>-th time. The first
  reply that is a receipt ends the poll, and a request that was pending resolves with
  that receipt, for good.
\<close>

theorem timeout_falls_back_to_polling:
  assumes i: "i < length (attempts c)"
    and t: "indexOf e ''within 50 blocks'' > - 1"
    and c': "c' = step env c (Emit i (Error e))"
    and p: "p = length (polls c)"
  shows "c' = c\<lparr>polls := polls c @ [\<lparr> poll_hash = txHash (attempts c ! i), waiter = i,
                                        status = Querying, queries = 1 \<rparr>]\<rparr>
       \<and> (\<forall>n r. status (polls (run env c' (null_rounds p n)) ! p) = Querying
              \<and> queries (polls (run env c' (null_rounds p n)) ! p) = n + 1
              \<and> status (polls (step env (run env c' (null_rounds p n)) (PollReply p (Reply None))) ! p)
                  = Sleeping 1000
              \<and> status (polls (run env c' (null_rounds p n @ [PollReply p (Reply (Some r))])) ! p)
                  = Finished r
              \<and> (promise (attempts c ! i) = Pending \<longrightarrow>
                   outcome (run env c' (null_rounds p n)) i = None
                 \<and> (\<forall>post. outcome (run env c' (null_rounds p n @ PollReply p (Reply (Some r)) # post)) i
                       = Some (Resolved (ReceiptValue r)))))"
proof -
  have shape: "c' = c\<lparr>polls := polls c @ [\<lparr> poll_hash = txHash (attempts c ! i), waiter = i,
                                        status = Querying, queries = 1 \<rparr>]\<rparr>"
    using i t by (simp add: c' on_error_timeout timeout_text_def pollTransaction_def)
  have pl: "p < length (polls c')" "status (polls c' ! p) = Querying" "queries (polls c' ! p) = 1"
    "waiter (polls c' ! p) = i" "attempts c' = attempts c"
    by (simp_all add: shape p)
  have rounds: "status (polls (run env c' (null_rounds p n)) ! p) = Querying
      \<and> queries (polls (run env c' (null_rounds p n)) ! p) = n + 1
      \<and> status (polls (step env (run env c' (null_rounds p n)) (PollReply p (Reply None))) ! p)
          = Sleeping 1000
      \<and> status (polls (run env c' (null_rounds p n @ [PollReply p (Reply (Some r))])) ! p)
          = Finished r
      \<and> (promise (attempts c ! i) = Pending \<longrightarrow>
           outcome (run env c' (null_rounds p n)) i = None
         \<and> (\<forall>post. outcome (run env c' (null_rounds p n @ PollReply p (Reply (Some r)) # post)) i
               = Some (Resolved (ReceiptValue r))))" for n r
  proof -
    let ?cn = "run env c' (null_rounds p n)"
    note rn = run_null_rounds [OF pl(1,2), of env n]
    from rn have a: "attempts ?cn = attempts c" and l: "p < length (polls ?cn)"
      and q: "status (polls ?cn ! p) = Querying" and w: "waiter (polls ?cn ! p) = i"
      and k: "queries (polls ?cn ! p) = n + 1"
      by (simp_all add: pl)
    have sl: "status (polls (step env ?cn (PollReply p (Reply None))) ! p) = Sleeping 1000"
      unfolding step_null_reply [OF l q] using l by simp
    let ?cr = "step env ?cn (PollReply p (Reply (Some r)))"
    have cr: "?cr = ?cn\<lparr>polls := (polls ?cn)[p := (polls ?cn ! p)\<lparr>status := Finished r\<rparr>],
                attempts := (attempts c)[i := resolve (ReceiptValue r) (attempts c ! i)]\<rparr>"
      unfolding step_receipt_reply [OF l q] by (simp add: w a)
    have fin: "status (polls (run env c' (null_rounds p n @ [PollReply p (Reply (Some r))])) ! p)
        = Finished r"
      unfolding run_append run_Cons run_Nil cr using l by simp
    have res: "outcome ?cn i = None
        \<and> (\<forall>post. outcome (run env c' (null_rounds p n @ PollReply p (Reply (Some r)) # post)) i
              = Some (Resolved (ReceiptValue r)))"
      if pend: "promise (attempts c ! i) = Pending"
    proof -
      have "outcome ?cn i = None" using pend by (simp add: outcome_Pending a)
      moreover have "outcome (run env c' (null_rounds p n @ PollReply p (Reply (Some r)) # post)) i
              = Some (Resolved (ReceiptValue r))" for post
      proof -
        have "i < length (attempts ?cr)" unfolding cr using i by simp
        moreover have "promise (attempts ?cr ! i) = Settled (Resolved (ReceiptValue r))"
          unfolding cr using i pend by (simp add: promise_resolve_Pending)
        ultimately have "outcome (run env ?cr post) i = Some (Resolved (ReceiptValue r))"
          by (rule outcome_run_Settled)
        then show ?thesis by (simp only: run_append run_Cons)
      qed
      ultimately show ?thesis by blast
    qed
    from q k sl fin res show ?thesis by blast
  qed
  from shape rounds show ?thesis by blast
qed

theorem timeout_falls_back_to_polling_witness:
  "polls (step example_env
            ((start (example_call ''verify'' False))
               \<lparr>attempts := [(example_call ''verify'' False)\<lparr>txHash := Some ''0xh1''\<rparr>]\<rparr>)
            (Emit 0 (Error ''not mined within 50 blocks'')))
     = [\<lparr> poll_hash = Some ''0xh1'', waiter = 0, status = Querying, queries = 1 \<rparr>]
   \<and> outcome (run example_env
                (step example_env
                   ((start (example_call ''verify'' False))
                      \<lparr>attempts := [(example_call ''verify'' False)\<lparr>txHash := Some ''0xh1''\<rparr>]\<rparr>)
                   (Emit 0 (Error ''not mined within 50 blocks'')))
                [PollReply 0 (Reply None), TimerFired 0, PollReply 0 (Reply None), TimerFired 0,
                 PollReply 0 (Reply (Some example_receipt))]) 0
       = Some (Resolved (ReceiptValue example_receipt))"
proof -
  let ?c = "(start (example_call ''verify'' False))
               \<lparr>attempts := [(example_call ''verify'' False)\<lparr>txHash := Some ''0xh1''\<rparr>]\<rparr>"
  let ?e = "''not mined within 50 blocks''"
  have i: "0 < length (attempts ?c)" by simp
  have t: "indexOf ?e ''within 50 blocks'' > - 1"
    using timeout_only_text(2) unfolding timeout_text_def .
  have p: "0 = length (polls ?c)" by simp
  have pend: "promise (attempts ?c ! 0) = Pending" by (simp add: example_call_def)
  note inst = timeout_falls_back_to_polling [OF i t refl p, of example_env]
  have nr: "null_rounds 0 2 @ PollReply 0 (Reply (Some example_receipt)) # []
      = [PollReply 0 (Reply None), TimerFired 0, PollReply 0 (Reply None), TimerFired 0,
         PollReply 0 (Reply (Some example_receipt))]"
    by (simp add: null_rounds_def numeral_2_eq_2)
  from inst have "polls (step example_env ?c (Emit 0 (Error ?e)))
      = polls (?c\<lparr>polls := polls ?c @ [\<lparr> poll_hash = txHash (attempts ?c ! 0), waiter = 0,
                                        status = Querying, queries = 1 \<rparr>]\<rparr>)"
    by simp
  then have a: "polls (step example_env ?c (Emit 0 (Error ?e)))
      = [\<lparr> poll_hash = Some ''0xh1'', waiter = 0, status = Querying, queries = 1 \<rparr>]"
    by simp
  from inst pend have "outcome (run example_env (step example_env ?c (Emit 0 (Error ?e)))
        (null_rounds 0 2 @ PollReply 0 (Reply (Some example_receipt)) # [])) 0
      = Some (Resolved (ReceiptValue example_receipt))"
    by blast
  with a show ?thesis unfolding nr by simp
qed

text \<open>
  C5 as stated fails for a request that was resolved early: the poll runs and gets its
  receipt, but the request keeps the hash as its result.
\<close>

theorem polled_receipt_after_early_resolution_is_dropped:
  "submit example_env ''notarize'' [''ab''] True
     [Emit 0 (TransactionHash ''0xh1''), Emit 0 (Error ''not mined within 50 blocks''),
      PollReply 0 (Reply (Some example_receipt))]
     = Some (Resolved (HashValue ''0xh1''))
   \<and> map status (polls (run example_env (start (example_call ''notarize'' True))
       [Emit 0 (TransactionHash ''0xh1''), Emit 0 (Error ''not mined within 50 blocks''),
        PollReply 0 (Reply (Some example_receipt))])) = [Finished example_receipt]"
proof -
  let ?a0 = "example_call ''notarize'' True"
  let ?a0' = "?a0\<lparr>txHash := Some ''0xh1'', promise := Settled (Resolved (HashValue ''0xh1''))\<rparr>"
  let ?sched = "[Emit 0 (TransactionHash ''0xh1''), Emit 0 (Error ''not mined within 50 blocks''),
      PollReply 0 (Reply (Some example_receipt))]"
  have fresh: "sendTransaction example_env ''notarize'' [''ab''] None True = Inr ?a0"
    by (rule example_sendTransaction) simp
  have s1: "step example_env (start ?a0) (Emit 0 (TransactionHash ''0xh1''))
      = \<lparr> attempts = [?a0'], polls = [] \<rparr>"
    by (simp add: start_def on_transactionHash_def resolve_def example_call_def Let_def)
  have s2: "step example_env \<lparr> attempts = [?a0'], polls = [] \<rparr>
        (Emit 0 (Error ''not mined within 50 blocks''))
      = \<lparr> attempts = [?a0'], polls = [pollTransaction (Some ''0xh1'') 0] \<rparr>"
    using timeout_only_text by (simp add: on_error_timeout)
  have s3: "step example_env \<lparr> attempts = [?a0'], polls = [pollTransaction (Some ''0xh1'') 0] \<rparr>
        (PollReply 0 (Reply (Some example_receipt)))
      = \<lparr> attempts = [?a0'], polls = [(pollTransaction (Some ''0xh1'') 0)\<lparr>status := Finished example_receipt\<rparr>] \<rparr>"
    by (simp add: on_poll_reply_receipt pollTransaction_def resolve_def)
  have r: "run example_env (start ?a0) ?sched
      = \<lparr> attempts = [?a0'], polls = [(pollTransaction (Some ''0xh1'') 0)\<lparr>status := Finished example_receipt\<rparr>] \<rparr>"
    by (simp only: run_Cons run_Nil s1 s2 s3)
  show ?thesis
    unfolding submit_fresh [OF fresh] r
    by (simp add: outcome_def)
qed

section \<open>Claim C6\<close>

text \<open>
  C6. Check result. For a text, Check computes the digest and calls the engine with the
  operation \<^verbatim>\<open>'verify'\<close>, the digest as its argument, and the early flag unset. A
  request made that way never resolves with a bare hash: what the engine resolves with is
  a receipt. Check then takes the value of the second parameter of the first decoded log
  entry of that receipt and answers with it and the receipt's transaction hash. When the
  receipt's log entries decode to what the contract's \<^verbatim>\<open>verify\<close> emits for that
  digest, the value is the boolean the contract had stored for the digest.
\<close>

theorem verify_returns_decoded_flag:
  assumes "submit env ''verify'' [sha256_hex t] False sched = Some (Resolved v)"
  shows "\<exists>r. v = ReceiptValue r
       \<and> (\<forall>b. decode_notarized env v = Inr b \<longrightarrow>
            verify env (JString t) sched
              = Responded \<lparr> status_code = 200, body = BodyVerify b (transactionHash r) \<rparr>)
       \<and> (\<forall>proofs. decodeLogs env (logs r)
                      = map (\<lambda>e. Some (decoded_event e)) (snd (contract_verify proofs (sha256_hex t))) \<longrightarrow>
            verify env (JString t) sched
              = Responded \<lparr> status_code = 200,
                             body = BodyVerify (AbiBool (proofs (sha256_hex t))) (transactionHash r) \<rparr>)"
proof -
  from late_request_resolves_with_receipt [OF assms] obtain r where v: "v = ReceiptValue r"
    by blast
  have gen: "verify env (JString t) sched
      = Responded \<lparr> status_code = 200, body = BodyVerify b (transactionHash r) \<rparr>"
    if "decode_notarized env v = Inr b" for b
    using that assms by (simp add: verify_def v)
  have "decode_notarized env v = Inr (AbiBool (proofs (sha256_hex t)))"
    if "decodeLogs env (logs r)
          = map (\<lambda>e. Some (decoded_event e)) (snd (contract_verify proofs (sha256_hex t)))" for proofs
    using that by (simp add: decode_notarized_def v contract_verify_def)
  with gen v show ?thesis by blast
qed

theorem verify_returns_decoded_flag_witness:
  "verify example_env (JString ''hello'')
     [Emit 0 (TransactionHash ''0xh1''),
      Emit 0 (Receipt \<lparr> transactionHash = ''0xh1'', logs = [CHR ''T'' # sha256_hex ''hello''],
                        receipt_contractAddress = None \<rparr>)]
     = Responded \<lparr> status_code = 200, body = BodyVerify (AbiBool True) ''0xh1'' \<rparr>"
proof -
  let ?r = "\<lparr> transactionHash = ''0xh1'', logs = [CHR ''T'' # sha256_hex ''hello''],
                        receipt_contractAddress = None \<rparr>"
  let ?sched = "[Emit 0 (TransactionHash ''0xh1''), Emit 0 (Receipt ?r)]"
  let ?a0 = "\<lparr> methodName = ''verify'', params = [sha256_hex ''hello''], immediate = False, nonce = 7,
              sent = build_tx example_env ''verify'' [sha256_hex ''hello''] 7,
              txHash = None, promise = Pending \<rparr>"
  have fresh: "sendTransaction example_env ''verify'' [sha256_hex ''hello''] None False = Inr ?a0"
    by (simp add: sendTransaction_def compute_nonce_def example_env_def)
  have "outcome (run example_env (start ?a0) ?sched) 0 = Some (Resolved (ReceiptValue ?r))"
    by (simp add: run_def start_def on_receipt_def on_transactionHash_def resolve_def
        outcome_def Let_def)
  then have eng: "submit example_env ''verify'' [sha256_hex ''hello''] False ?sched
      = Some (Resolved (ReceiptValue ?r))"
    by (simp add: submit_fresh [OF fresh])
  have dec: "decodeLogs example_env (logs ?r)
      = map (\<lambda>e. Some (decoded_event e))
          (snd (contract_verify (\<lambda>d. True) (sha256_hex ''hello'')))"
    by (simp add: example_env_def contract_verify_def)
  from verify_returns_decoded_flag [OF eng] dec show ?thesis by auto
qed

section \<open>Claim C7\<close>

text \<open>
  C7. The digest. For every text the digest is a string of 64 lower-case hexadecimal
  digits, the hex form of the eight 32-bit words of SHA-256. It is a function of the text
  alone: nothing else enters its computation, so equal texts have equal digests. Store
  and Check compute it the same way and hand the same digest to the engine as the only
  argument of their operation. Nothing is claimed about different texts.
\<close>

theorem digest_fixed_length_and_shared:
  "length (sha256_hex t) = 64
   \<and> set (sha256_hex t) \<subseteq> set ''0123456789abcdef''
   \<and> digest d (JString t) = Inr (sha256_hex t)
   \<and> digest d (JString t) = digest d' (JString t)
   \<and> notarize env (JString t) sched
       = (case submit env ''notarize'' [sha256_hex t] True sched of
            None \<Rightarrow> Awaiting
          | Some (Resolved v) \<Rightarrow> Responded \<lparr> status_code = 200, body = BodyResolution v \<rparr>
          | Some (Rejected error) \<Rightarrow> Responded \<lparr> status_code = 500, body = BodyError error \<rparr>)
   \<and> verify env (JString t) sched'
       = (case submit env ''verify'' [sha256_hex t] False sched' of
            None \<Rightarrow> Awaiting
          | Some (Rejected error) \<Rightarrow> Responded \<lparr> status_code = 500, body = BodyError error \<rparr>
          | Some (Resolved v) \<Rightarrow>
              (case decode_notarized env v of
                 Inl ex \<Rightarrow> Responded \<lparr> status_code = 500, body = BodyException ex \<rparr>
               | Inr notarized \<Rightarrow>
                   Responded \<lparr> status_code = 200,
                               body = BodyVerify notarized
                                 (case v of ReceiptValue r \<Rightarrow> transactionHash r | HashValue h \<Rightarrow> []) \<rparr>))"
proof -
  have "length (sha256_hex t) = 64" by (simp add: sha256_hex_def length_hex_state)
  moreover have "set (sha256_hex t) \<subseteq> set ''0123456789abcdef''"
    unfolding sha256_hex_def by (rule set_hex_state)
  ultimately show ?thesis by (simp add: notarize_def verify_def)
qed
section \<open>Claim C8\<close>



section \<open>Claim C9\<close>

text \<open>
  C9 (amended). Precondition of the polling fallback. The timeout branch gives the poller
  the hash its call holds at that moment: for the caller's call, the hash of the latest
  hash-assigned event, undefined when there was none. The poll ends only when the RPC
  answers it with a receipt, which, with an RPC that has no receipt for an undefined
  hash, requires a hash assigned before the timeout error. When the timeout error arrives
  on a pending call before any hash-assigned event, the poller is given an undefined hash
  and, with such an RPC, the promise stays pending for as long as the transport emits no
  further event on that call.
\<close>

theorem poller_gets_captured_hash:
  assumes fresh: "sendTransaction env m ps None imm = Inr a0"
    and reach: "c = run env (start a0) pre"
    and i: "i < length (attempts c)"
    and t: "indexOf e ''within 50 blocks'' > - 1"
    and c': "c' = step env c (Emit i (Error e))"
    and p: "p = length (polls c)"
  shows "polls c' = polls c @ [\<lparr> poll_hash = txHash (attempts c ! i), waiter = i,
                                 status = Querying, queries = 1 \<rparr>]
       \<and> txHash (attempts (run env (start a0) pre) ! 0) = last_hash 0 pre
       \<and> (\<forall>post r. status (polls (run env c' post) ! p) = Finished r \<longrightarrow>
             PollReply p (Reply (Some r)) \<in> set post
           \<and> (rpc_sound env c' post \<longrightarrow> txHash (attempts c ! i) \<noteq> None))
       \<and> (txHash (attempts c ! i) = None \<and> promise (attempts c ! i) = Pending \<longrightarrow>
             (\<forall>post. (\<forall>a \<in> set post. \<not> emits_on i a) \<and> rpc_sound env c' post \<longrightarrow>
                promise (attempts (run env c' post) ! i) = Pending
              \<and> outcome (run env c' post) i = None))"
proof -
  have shape: "c' = c\<lparr>polls := polls c @ [\<lparr> poll_hash = txHash (attempts c ! i), waiter = i,
                                        status = Querying, queries = 1 \<rparr>]\<rparr>"
    using i t by (simp add: c' on_error_timeout timeout_text_def pollTransaction_def)
  then have polls: "polls c' = polls c @ [\<lparr> poll_hash = txHash (attempts c ! i), waiter = i,
                                 status = Querying, queries = 1 \<rparr>]"
    by simp
  have pl: "p < length (polls c')" "status (polls c' ! p) = Querying"
    "poll_hash (polls c' ! p) = txHash (attempts c ! i)" "attempts c' = attempts c"
    by (simp_all add: shape p)
  have "txHash a0 = None" using sendTransaction_shape [OF fresh] by simp
  then have captured: "txHash (attempts (run env (start a0) pre) ! 0) = last_hash 0 pre"
    using txHash_run [of 0 "start a0" env pre] by (simp split: option.splits)
  have fin: "PollReply p (Reply (Some r)) \<in> set post
        \<and> (rpc_sound env c' post \<longrightarrow> txHash (attempts c ! i) \<noteq> None)"
    if f: "status (polls (run env c' post) ! p) = Finished r" for post r
  proof -
    have l: "p < length (polls (run env c' post))"
      using pl(1) length_polls_run [of c' env post] by simp
    from finished_needs_receipt [OF l f] pl(2)
    have "PollReply p (Reply (Some r)) \<in> set post" by simp
    moreover have "txHash (attempts c ! i) \<noteq> None" if "rpc_sound env c' post"
      using finished_needs_hash [OF that l f] pl(2,3) poll_hash_run [OF pl(1), of env post]
      by simp
    ultimately show ?thesis by blast
  qed
  have inv: "polls_inv c'"
    unfolding c' reach by (intro polls_inv_step polls_inv_run polls_inv_start)
  have stays: "promise (attempts (run env c' post) ! i) = Pending \<and> outcome (run env c' post) i = None"
    if h: "txHash (attempts c ! i) = None" and pend: "promise (attempts c ! i) = Pending"
      and q: "\<forall>a \<in> set post. \<not> emits_on i a" and s: "rpc_sound env c' post" for post
  proof -
    have "attempts (run env c' post) ! i = attempts c' ! i"
      using inv i h q s by (intro pending_stays) (simp_all add: pl(4))
    with pend have "promise (attempts (run env c' post) ! i) = Pending" by (simp add: pl(4))
    then show ?thesis by (simp add: outcome_Pending)
  qed
  from polls captured fin stays show ?thesis by blast
qed

theorem poller_gets_captured_hash_witness:
  "poll_hash (polls (step example_env (start (example_call ''verify'' False))
                       (Emit 0 (Error ''not mined within 50 blocks''))) ! 0) = None
   \<and> outcome (run example_env
                (step example_env (start (example_call ''verify'' False))
                   (Emit 0 (Error ''not mined within 50 blocks'')))
                [PollReply 0 (Reply None), TimerFired 0, PollReply 0 (Failure ''invalid argument'')]) 0
       = None"
proof -
  let ?a0 = "example_call ''verify'' False"
  let ?e = "''not mined within 50 blocks''"
  let ?c' = "step example_env (start ?a0) (Emit 0 (Error ?e))"
  let ?post = "[PollReply 0 (Reply None), TimerFired 0, PollReply 0 (Failure ''invalid argument'')]"
  have fresh: "sendTransaction example_env ''verify'' [''ab''] None False = Inr ?a0"
    by (rule example_sendTransaction) simp
  have reach: "start ?a0 = run example_env (start ?a0) []" by (simp add: run_Nil)
  have i: "0 < length (attempts (start ?a0))" by simp
  have t: "indexOf ?e ''within 50 blocks'' > - 1"
    using timeout_only_text(2) unfolding timeout_text_def .
  have p: "0 = length (polls (start ?a0))" by simp
  have h: "txHash (attempts (start ?a0) ! 0) = None" "promise (attempts (start ?a0) ! 0) = Pending"
    by (simp_all add: example_call_def)
  have cs: "?c' = (start ?a0)\<lparr>polls := [pollTransaction None 0]\<rparr>"
    using timeout_only_text(2) by (simp add: on_error_timeout example_call_def)
  have q: "\<forall>a \<in> set ?post. \<not> emits_on 0 a" by simp
  have s: "rpc_sound example_env ?c' ?post" by simp
  note inst = poller_gets_captured_hash [OF fresh reach i t refl p]
  from inst have "polls ?c' = polls (start ?a0) @ [\<lparr> poll_hash = txHash (attempts (start ?a0) ! 0),
      waiter = 0, status = Querying, queries = 1 \<rparr>]" by blast
  with h have a: "poll_hash (polls ?c' ! 0) = None" by simp
  from inst h q s have "outcome (run example_env ?c' ?post) 0 = None" by blast
  with a show ?thesis by simp
qed

text \<open>
  C9 as stated fails: after a timeout error that came before any hash-assigned event, a
  later hash-assigned event still resolves an early request, though the poller was given
  an undefined hash and got no reply.
\<close>

theorem late_hash_event_resolves_after_undefined_poll:
  "polls (run example_env (start (example_call ''notarize'' True))
            [Emit 0 (Error ''not mined within 50 blocks''), Emit 0 (TransactionHash ''0xh1'')])
     = [\<lparr> poll_hash = None, waiter = 0, status = Querying, queries = 1 \<rparr>]
   \<and> submit example_env ''notarize'' [''ab''] True
        [Emit 0 (Error ''not mined within 50 blocks''), Emit 0 (TransactionHash ''0xh1'')]
       = Some (Resolved (HashValue ''0xh1''))"
proof -
  let ?a0 = "example_call ''notarize'' True"
  let ?e = "''not mined within 50 blocks''"
  have fresh: "sendTransaction example_env ''notarize'' [''ab''] None True = Inr ?a0"
    by (rule example_sendTransaction) simp
  have cs: "step example_env (start ?a0) (Emit 0 (Error ?e))
      = (start ?a0)\<lparr>polls := [pollTransaction None 0]\<rparr>"
    using timeout_only_text(2) by (simp add: on_error_timeout example_call_def)
  have r: "run example_env (start ?a0) [Emit 0 (Error ?e), Emit 0 (TransactionHash ''0xh1'')]
      = \<lparr> attempts = [?a0\<lparr>txHash := Some ''0xh1'', promise := Settled (Resolved (HashValue ''0xh1''))\<rparr>],
          polls = [pollTransaction None 0] \<rparr>"
    unfolding run_Cons run_Nil cs
    by (simp add: start_def on_transactionHash_def resolve_def example_call_def Let_def)
  show ?thesis
    unfolding submit_fresh [OF fresh] r
    by (simp add: pollTransaction_def outcome_def)
qed

text \<open>
  The engine does not look at the hash it hands to the poller. Whether a poll for an
  undefined hash ends is decided by the remote RPC alone: a reply that carries a receipt
  resolves the request.
\<close>

lemma receipt_for_undefined_hash_resolves:
  "polls (step example_env (start (example_call ''verify'' False))
            (Emit 0 (Error ''not mined within 50 blocks'')))
     = [\<lparr> poll_hash = None, waiter = 0, status = Querying, queries = 1 \<rparr>]
   \<and> submit example_env ''verify'' [''ab''] False
        [Emit 0 (Error ''not mined within 50 blocks''), PollReply 0 (Reply (Some example_receipt))]
       = Some (Resolved (ReceiptValue example_receipt))"
proof -
  let ?a0 = "example_call ''verify'' False"
  have fresh: "sendTransaction example_env ''verify'' [''ab''] None False = Inr ?a0"
    by (rule example_sendTransaction) simp
  have s1: "step example_env (start ?a0) (Emit 0 (Error ''not mined within 50 blocks''))
      = \<lparr> attempts = [?a0], polls = [pollTransaction None 0] \<rparr>"
    using timeout_only_text by (simp add: on_error_timeout start_def example_call_def)
  have s2: "step example_env \<lparr> attempts = [?a0], polls = [pollTransaction None 0] \<rparr>
        (PollReply 0 (Reply (Some example_receipt)))
      = \<lparr> attempts = [resolve (ReceiptValue example_receipt) ?a0],
          polls = [(pollTransaction None 0)\<lparr>status := Finished example_receipt\<rparr>] \<rparr>"
    by (simp add: on_poll_reply_receipt pollTransaction_def)
  have r: "run example_env (start ?a0)
        [Emit 0 (Error ''not mined within 50 blocks''), PollReply 0 (Reply (Some example_receipt))]
      = \<lparr> attempts = [resolve (ReceiptValue example_receipt) ?a0],
          polls = [(pollTransaction None 0)\<lparr>status := Finished example_receipt\<rparr>] \<rparr>"
    by (simp only: run_Cons run_Nil s1 s2)
  show ?thesis
    unfolding submit_fresh [OF fresh] r s1
    by (simp add: outcome_def resolve_def example_call_def pollTransaction_def)
qed

section \<open>Claim C10\<close>



end
